theory Spec2Isabelle
  imports Complex_Main "HOL-Library.Word"
begin

section \<open>Live session bridge: playback scheduling (components/LiveAudio.tsx)\<close>

text \<open>
  \<^verbatim>\<open>handleAudioData\<close> touches two pieces of state: the ref \<^verbatim>\<open>nextStartTimeRef\<close>
  (initially \<^verbatim>\<open>useRef(0)\<close>) and the buffer sources it starts on the output audio
  context. The sources started so far on the current output context are recorded in
  call order as pairs (start time passed to \<^verbatim>\<open>source.start\<close>,
  \<^verbatim>\<open>audioBuffer.duration\<close>). Times are seconds on the clock of that context, taken as
  real numbers (the source computes with doubles).
\<close>

record audio_state =
  nextStartTime :: real
  started :: "(real \<times> real) list"

definition audio_init :: audio_state where
  "audio_init = \<lparr>nextStartTime = 0, started = []\<rparr>"

text \<open>
  First argument: \<^verbatim>\<open>outputAudioContextRef.current\<close>, \<open>None\<close> when the ref is null
  (the function returns at once), otherwise the context's \<^verbatim>\<open>currentTime\<close> read on
  line 118. Second argument: the duration of the decoded buffer, \<open>None\<close> when
  \<^verbatim>\<open>decodeAudio\<close>/\<^verbatim>\<open>decodeAudioData\<close> throws (the \<^verbatim>\<open>catch\<close> logs and changes nothing).
\<close>

definition handleAudioData :: "real option \<Rightarrow> real option \<Rightarrow> audio_state \<Rightarrow> audio_state" where
  "handleAudioData ctx decoded s =
     (case ctx of
        None \<Rightarrow> s
      | Some currentTime \<Rightarrow>
          (case decoded of
             None \<Rightarrow> s
           | Some duration \<Rightarrow>
               (let startTime = max currentTime (nextStartTime s)
                in s\<lparr>started := started s @ [(startTime, duration)],
                     nextStartTime := startTime + duration\<rparr>)))"

text \<open>
  An arrival sequence: each inbound buffer is a pair (context time at which it is
  scheduled, its duration); the buffers are handled in arrival order.
\<close>

fun play :: "(real \<times> real) list \<Rightarrow> audio_state \<Rightarrow> audio_state" where
  "play [] s = s"
| "play ((now, duration) # rest) s = play rest (handleAudioData (Some now) (Some duration) s)"

text \<open>
  What one output context plays when it is the first of the component: the buffers
  arrive on its clock and the watermark starts from its initial value 0.
\<close>

definition schedule :: "(real \<times> real) list \<Rightarrow> (real \<times> real) list" where
  "schedule arrivals = started (play arrivals audio_init)"

text \<open>
  A change of \<^verbatim>\<open>facingMode\<close> (the camera switch) re-runs the effect: its cleanup closes
  the output context (line 206) and \<^verbatim>\<open>initSession\<close> creates a new one (line 136). The
  new context has started no source and its \<^verbatim>\<open>currentTime\<close> begins at 0 again.
  \<^verbatim>\<open>nextStartTimeRef\<close> is assigned on line 121 and nowhere else, so it keeps the value
  it had on the clock of the closed context.
\<close>

definition recreate_output_context :: "audio_state \<Rightarrow> audio_state" where
  "recreate_output_context s = s\<lparr>started := []\<rparr>"

section \<open>Timeline store: artifacts, tag parsing, enrichment (App.tsx, types.ts, components/Timeline.tsx)\<close>

text \<open>
  \<^verbatim>\<open>interface CapturedImage\<close> of types.ts. An optional field is an \<open>option\<close>, absent
  (\<^verbatim>\<open>undefined\<close>) being \<open>None\<close>. The field \<^verbatim>\<open>id\<close> is named \<open>id_str\<close> here, \<open>id\<close> being
  the identity function of HOL. Strings are lists of code units below 256, which covers
  every character the patterns and keywords of the source mention.
\<close>

record CapturedImage =
  id_str :: string
  timestamp :: nat
  dataUrl :: string
  analysis :: "string option"
  confidence :: "nat option"
  growthStage :: "string option"
  eventTags :: "string list option"
  healthStatus :: "string option"
  advice :: "string option"

subsection \<open>Character classes of the two regular expressions\<close>

text \<open>\<^verbatim>\<open>\s\<close>: tab, line feed, vertical tab, form feed, carriage return, space, no-break space.\<close>

definition is_space :: "char \<Rightarrow> bool" where
  "is_space c = ((of_char c :: nat) \<in> {9, 10, 11, 12, 13, 32, 160})"

text \<open>\<^verbatim>\<open>\d\<close>: the ten ASCII digits.\<close>

definition is_digit :: "char \<Rightarrow> bool" where
  "is_digit c = (48 \<le> (of_char c :: nat) \<and> (of_char c :: nat) \<le> 57)"

text \<open>
  Upper-casing of the letters a to z. Under the flag \<^verbatim>\<open>i\<close> a pattern character and an
  input character match when their canonical (upper-case) forms agree; the pattern
  characters of the source are ASCII, and no other code unit has an ASCII canonical form,
  so comparing \<open>upper_ascii\<close> of both sides is that test.
\<close>

definition upper_ascii :: "char \<Rightarrow> char" where
  "upper_ascii c =
     (if 97 \<le> (of_char c :: nat) \<and> (of_char c :: nat) \<le> 122
      then char_of ((of_char c :: nat) - 32) else c)"

text \<open>
  A literal piece of a pattern, matched case-insensitively at the start of the input:
  the rest of the input on success.
\<close>

fun match_lit_i :: "string \<Rightarrow> string \<Rightarrow> string option" where
  "match_lit_i [] s = Some s"
| "match_lit_i (p # ps) [] = None"
| "match_lit_i (p # ps) (c # cs) =
     (if upper_ascii p = upper_ascii c then match_lit_i ps cs else None)"

text \<open>
  \<^verbatim>\<open>/\[CONFIDENCE:\s*(\d+)%?\]/i\<close> tried at the start of the input; the result is the
  capture group 1. The quantifiers are greedy; giving characters back never helps here,
  because what follows \<^verbatim>\<open>\s*\<close> must be a digit, and what follows \<^verbatim>\<open>\d+\<close> must be
  \<^verbatim>\<open>%\<close> or \<^verbatim>\<open>]\<close>. \<open>opt_percent\<close> is \<^verbatim>\<open>%?\<close> and \<open>closing_bracket\<close> is \<^verbatim>\<open>\]\<close>.
\<close>

definition opt_percent :: "string \<Rightarrow> string" where
  "opt_percent r = (case r of [] \<Rightarrow> r | c # t \<Rightarrow> if c = CHR ''%'' then t else r)"

definition closing_bracket :: "string \<Rightarrow> bool" where
  "closing_bracket r = (case r of [] \<Rightarrow> False | c # t \<Rightarrow> c = CHR '']'')"

definition match_confidence_at :: "string \<Rightarrow> string option" where
  "match_confidence_at s =
     (case match_lit_i ''[CONFIDENCE:'' s of
        None \<Rightarrow> None
      | Some r \<Rightarrow>
          (let r1 = dropWhile is_space r;
               ds = takeWhile is_digit r1;
               r2 = dropWhile is_digit r1
           in if ds \<noteq> [] \<and> closing_bracket (opt_percent r2) then Some ds else None))"

text \<open>
  The alternation \<^verbatim>\<open>(HEALTHY|STRESSED|CRITICAL)\<close> followed by \<^verbatim>\<open>\]\<close>: the alternatives
  are tried from left to right, the next one when the current one or the closing
  bracket after it fails. The result is the text matched by the group.
\<close>

fun match_alternatives :: "string list \<Rightarrow> string \<Rightarrow> string option" where
  "match_alternatives [] s = None"
| "match_alternatives (w # ws) s =
     (case match_lit_i w s of
        None \<Rightarrow> match_alternatives ws s
      | Some r \<Rightarrow>
          (case r of
             [] \<Rightarrow> match_alternatives ws s
           | c # t \<Rightarrow> if c = CHR '']'' then Some (take (length w) s)
                      else match_alternatives ws s))"

text \<open>\<^verbatim>\<open>/\[HEALTH:\s*(HEALTHY|STRESSED|CRITICAL)\]/i\<close> tried at the start of the input.\<close>

definition match_health_at :: "string \<Rightarrow> string option" where
  "match_health_at s =
     (case match_lit_i ''[HEALTH:'' s of
        None \<Rightarrow> None
      | Some r \<Rightarrow>
          match_alternatives [''HEALTHY'', ''STRESSED'', ''CRITICAL''] (dropWhile is_space r))"

text \<open>
  \<^verbatim>\<open>text.match(re)\<close> for a pattern without the flag \<^verbatim>\<open>g\<close>: the match at the leftmost
  start position that has one, \<open>None\<close> (\<^verbatim>\<open>null\<close>) when no position has.
\<close>

fun regex_search :: "(string \<Rightarrow> 'a option) \<Rightarrow> string \<Rightarrow> 'a option" where
  "regex_search m [] = m []"
| "regex_search m (c # cs) =
     (case m (c # cs) of Some r \<Rightarrow> Some r | None \<Rightarrow> regex_search m cs)"

text \<open>
  \<^verbatim>\<open>parseInt\<close> on a capture of \<^verbatim>\<open>\d+\<close>: its decimal value. (JavaScript rounds values
  above \<open>2^53\<close> to the nearest double; that is not modelled.)
\<close>

definition digit_val :: "char \<Rightarrow> nat" where
  "digit_val c = (of_char c :: nat) - 48"

definition parseInt :: "string \<Rightarrow> nat" where
  "parseInt ds = foldl (\<lambda>n c. 10 * n + digit_val c) 0 ds"

text \<open>
  \<^verbatim>\<open>toUpperCase\<close>, applied by the source only to the capture of the health pattern, which
  consists of ASCII letters.
\<close>

definition toUpperCase :: "string \<Rightarrow> string" where
  "toUpperCase s = map upper_ascii s"

text \<open>The object returned by \<^verbatim>\<open>parseMetaData\<close>; its two keys carry the suffix \<open>_m\<close>.\<close>

record MetaData =
  confidence_m :: "nat option"
  healthStatus_m :: "string option"

definition parseMetaData :: "string \<Rightarrow> MetaData" where
  "parseMetaData text =
     (let confidence = regex_search match_confidence_at text;
          health = regex_search match_health_at text
      in \<lparr>confidence_m = (case confidence of Some ds \<Rightarrow> Some (parseInt ds) | None \<Rightarrow> None),
          healthStatus_m = (case health of Some h \<Rightarrow> Some (toUpperCase h) | None \<Rightarrow> None)\<rparr>)"

subsection \<open>Capture and enrichment\<close>

text \<open>
  The synchronous part of \<^verbatim>\<open>captureAndProcess\<close>, as an update of the \<^verbatim>\<open>images\<close> state.
  \<open>captured\<close> is \<open>None\<close> when \<^verbatim>\<open>cameraRef.current\<close> is null or \<^verbatim>\<open>capture()\<close> returns
  null; an empty string is falsy as well. \<open>now1\<close> and \<open>now2\<close> are the two readings of
  \<^verbatim>\<open>Date.now()\<close> (milliseconds), the first for the identifier, the second for the
  timestamp. \<open>nat_toString\<close> is \<^verbatim>\<open>toString()\<close> on such a reading: its decimal digits,
  \<open>digit_char\<close> being called on numbers below ten only.
\<close>

definition digit_char :: "nat \<Rightarrow> char" where
  "digit_char n = ''0123456789'' ! n"

fun nat_toString :: "nat \<Rightarrow> string" where
  "nat_toString n = (if n < 10 then [digit_char n] else nat_toString (n div 10) @ [digit_char (n mod 10)])"

declare nat_toString.simps [simp del]

definition newImage :: "string \<Rightarrow> nat \<Rightarrow> nat \<Rightarrow> CapturedImage" where
  "newImage url now1 now2 =
     \<lparr>id_str = nat_toString now1, timestamp = now2, dataUrl = url, analysis = None,
      confidence = None, growthStage = None, eventTags = None, healthStatus = None,
      advice = None\<rparr>"

definition captureAndProcess :: "string option \<Rightarrow> nat \<Rightarrow> nat \<Rightarrow> CapturedImage list \<Rightarrow> CapturedImage list" where
  "captureAndProcess captured now1 now2 prev =
     (case captured of
        None \<Rightarrow> prev
      | Some url \<Rightarrow> if url = [] then prev else prev @ [newImage url now1 now2])"

text \<open>
  The merge \<^verbatim>\<open>{ ...img, analysis, ...metadata }\<close>: the keys \<^verbatim>\<open>analysis\<close>,
  \<^verbatim>\<open>confidence\<close> and \<^verbatim>\<open>healthStatus\<close> are overwritten (the last two also when the
  parser left them undefined), every other key is kept.
\<close>

definition merge_analysis :: "string \<Rightarrow> CapturedImage \<Rightarrow> CapturedImage" where
  "merge_analysis text img =
     (let metadata = parseMetaData text
      in img\<lparr>analysis := Some text,
             confidence := confidence_m metadata,
             healthStatus := healthStatus_m metadata\<rparr>)"

text \<open>
  The update \<^verbatim>\<open>prev.map(img => img.id === newImage.id ? {...} : img)\<close> that runs when the
  analysis request has answered.
\<close>

definition enrich :: "string \<Rightarrow> string \<Rightarrow> CapturedImage list \<Rightarrow> CapturedImage list" where
  "enrich newId text prev = map (\<lambda>img. if id_str img = newId then merge_analysis text img else img) prev"

text \<open>
  The continuation of \<^verbatim>\<open>captureAndProcess\<close> after \<^verbatim>\<open>await analyzeImage\<close>, which exists
  only when \<^verbatim>\<open>settings.autoAnalyze\<close> was set at the capture. The response is
  \<open>None\<close> when the request fails or its text is undefined; in both cases an exception
  reaches the \<^verbatim>\<open>catch\<close>, which logs it and leaves the images alone.
\<close>

definition analysis_done :: "string \<Rightarrow> string option \<Rightarrow> CapturedImage list \<Rightarrow> CapturedImage list" where
  "analysis_done newId response prev =
     (case response of None \<Rightarrow> prev | Some text \<Rightarrow> enrich newId text prev)"

text \<open>The Purge Data button, once confirmed: \<^verbatim>\<open>setImages([])\<close>.\<close>

definition purge :: "CapturedImage list \<Rightarrow> CapturedImage list" where
  "purge prev = []"

subsection \<open>The bracket-tag grammar, stated on its own\<close>

text \<open>
  What it means for a text to contain a tag, written as a decomposition of the text and
  independently of the matching functions above: some prefix, the keyword with its
  opening bracket and colon in any letter case, white space, the value, an optional
  percent sign for the confidence, the closing bracket, and some suffix.
\<close>

definition contains_confidence_tag :: "string \<Rightarrow> bool" where
  "contains_confidence_tag text =
     (\<exists>pre kw ws ds pct post.
        text = pre @ kw @ ws @ ds @ pct @ '']'' @ post
        \<and> map upper_ascii kw = ''[CONFIDENCE:''
        \<and> (\<forall>c \<in> set ws. is_space c)
        \<and> ds \<noteq> [] \<and> (\<forall>c \<in> set ds. is_digit c)
        \<and> (pct = [] \<or> pct = ''%''))"

definition contains_health_tag :: "string \<Rightarrow> bool" where
  "contains_health_tag text =
     (\<exists>pre kw ws v post.
        text = pre @ kw @ ws @ v @ '']'' @ post
        \<and> map upper_ascii kw = ''[HEALTH:''
        \<and> (\<forall>c \<in> set ws. is_space c)
        \<and> map upper_ascii v \<in> {''HEALTHY'', ''STRESSED'', ''CRITICAL''})"

subsection \<open>The timeline as a sequence of state updates\<close>

text \<open>
  The updates of the \<^verbatim>\<open>images\<close> state, in the order in which React applies them:
  a capture, the arrival of an analysis response for the image with a given identifier,
  and a purge.
\<close>

datatype timeline_event =
    Capture "string option" nat nat
  | AnalysisDone string "string option"
  | Purge

fun timeline_step :: "timeline_event \<Rightarrow> CapturedImage list \<Rightarrow> CapturedImage list" where
  "timeline_step (Capture captured now1 now2) prev = captureAndProcess captured now1 now2 prev"
| "timeline_step (AnalysisDone newId response) prev = analysis_done newId response prev"
| "timeline_step Purge prev = purge prev"

fun timeline_run :: "timeline_event list \<Rightarrow> CapturedImage list \<Rightarrow> CapturedImage list" where
  "timeline_run [] imgs = imgs"
| "timeline_run (e # es) imgs = timeline_run es (timeline_step e imgs)"


subsection \<open>Display colour (components/Timeline.tsx)\<close>

text \<open>
  \<^verbatim>\<open>toLowerCase\<close> on code units below 256: the letters A to Z and the accented capitals
  of Latin-1 (192 to 222, the multiplication sign 215 apart) move up by 32.
\<close>

definition lower_char :: "char \<Rightarrow> char" where
  "lower_char c =
     (let n = (of_char c :: nat)
      in if (65 \<le> n \<and> n \<le> 90) \<or> (192 \<le> n \<and> n \<le> 222 \<and> n \<noteq> 215)
         then char_of (n + 32) else c)"

definition toLowerCase :: "string \<Rightarrow> string" where
  "toLowerCase s = map lower_char s"

fun starts_with :: "string \<Rightarrow> string \<Rightarrow> bool" where
  "starts_with s [] = True"
| "starts_with [] (w # ws) = False"
| "starts_with (c # cs) (w # ws) = (c = w \<and> starts_with cs ws)"

text \<open>\<^verbatim>\<open>t.includes(w)\<close>, named \<open>includes_str\<close> here.\<close>

fun includes_str :: "string \<Rightarrow> string \<Rightarrow> bool" where
  "includes_str [] w = (w = [])"
| "includes_str (c # cs) w = (starts_with (c # cs) w \<or> includes_str cs w)"

definition getHealthColor :: "CapturedImage \<Rightarrow> string" where
  "getHealthColor img =
     (if healthStatus img = Some ''CRITICAL'' then ''border-red-500 shadow-[0_0_10px_rgba(239,68,68,0.4)]''
      else if healthStatus img = Some ''STRESSED'' then ''border-yellow-500 shadow-[0_0_10px_rgba(234,179,8,0.4)]''
      else if healthStatus img = Some ''HEALTHY'' then ''border-cyber-accent shadow-[0_0_10px_rgba(132,204,22,0.4)]''
      else (case analysis img of
              None \<Rightarrow> ''border-cyber-700''
            | Some a \<Rightarrow>
                if a = [] then ''border-cyber-700''
                else (let t = toLowerCase a
                      in if includes_str t ''dead'' \<or> includes_str t ''disease'' \<or> includes_str t ''pest''
                            \<or> includes_str t ''rot'' \<or> includes_str t ''critical''
                         then ''border-red-500 shadow-[0_0_10px_rgba(239,68,68,0.4)]''
                         else if includes_str t ''wilt'' \<or> includes_str t ''yellow'' \<or> includes_str t ''dry''
                            \<or> includes_str t ''spot''
                         then ''border-yellow-500 shadow-[0_0_10px_rgba(234,179,8,0.4)]''
                         else ''border-cyber-accent shadow-[0_0_10px_rgba(132,204,22,0.4)]'')))"

section \<open>Media source adapter: camera acquisition (components/CameraFeed.tsx)\<close>

text \<open>
  The state of the component that \<^verbatim>\<open>startCamera\<close> reads and writes: the \<^verbatim>\<open>error\<close> state
  (message and type), \<^verbatim>\<open>isInitializing\<close>, \<^verbatim>\<open>hasTorch\<close>, and the stream held by
  \<^verbatim>\<open>videoRef.current.srcObject\<close>. A stream is a number naming the handle together with a
  flag telling whether its tracks are still live.
\<close>

record media_stream =
  handle :: nat
  live :: bool

record camera_state =
  error :: "(string \<times> string) option"
  isInitializing :: bool
  hasTorch :: bool
  srcObject :: "media_stream option"

text \<open>The \<^verbatim>\<open>catch\<close> block of \<^verbatim>\<open>startCamera\<close>: message and type chosen from \<^verbatim>\<open>err.name\<close>.\<close>

definition classify_error :: "string \<Rightarrow> string \<times> string" where
  "classify_error name =
     (if name = ''NotAllowedError'' \<or> name = ''PermissionDeniedError''
      then (''Camera access denied by user. Check browser settings.'', ''permission'')
      else if name = ''NotFoundError'' \<or> name = ''DevicesNotFoundError''
      then (''No compatible optics found on this hardware.'', ''hardware'')
      else (''Camera Optics Malfunction. Check Permissions.'', ''unknown''))"

text \<open>
  \<^verbatim>\<open>startCamera\<close> up to the \<^verbatim>\<open>await\<close>: the error is cleared, the busy flag raised and
  the tracks of the stream held so far are stopped.
\<close>

definition startCamera_begin :: "camera_state \<Rightarrow> camera_state" where
  "startCamera_begin s =
     s\<lparr>error := None, isInitializing := True,
       srcObject := (case srcObject s of None \<Rightarrow> None | Some m \<Rightarrow> Some (m\<lparr>live := False\<rparr>))\<rparr>"

text \<open>
  \<^verbatim>\<open>startCamera\<close> after the \<^verbatim>\<open>await\<close>. The outcome of the \<^verbatim>\<open>try\<close> block is either
  \<open>Inr (h, torch)\<close>, a live stream \<open>h\<close> whose video track reports the torch capability
  \<open>torch\<close>, or \<open>Inl name\<close>, an exception whose \<^verbatim>\<open>name\<close> property is \<open>name\<close>.
\<close>

definition startCamera_end :: "string + (nat \<times> bool) \<Rightarrow> camera_state \<Rightarrow> camera_state" where
  "startCamera_end outcome s =
     (case outcome of
        Inr (h, torch) \<Rightarrow>
          s\<lparr>hasTorch := torch, srcObject := Some \<lparr>handle = h, live = True\<rparr>, isInitializing := False\<rparr>
      | Inl name \<Rightarrow> s\<lparr>error := Some (classify_error name), isInitializing := False\<rparr>)"

definition startCamera :: "string + (nat \<times> bool) \<Rightarrow> camera_state \<Rightarrow> camera_state" where
  "startCamera outcome s = startCamera_end outcome (startCamera_begin s)"

text \<open>
  What the component renders: with an error, the inline panel showing the message and
  the Reinitialize button (\<^verbatim>\<open>onClick={startCamera}\<close>, enabled unless initializing);
  the video otherwise.
\<close>

datatype camera_view = ErrorPanel string bool | VideoView

definition render_camera :: "camera_state \<Rightarrow> camera_view" where
  "render_camera s =
     (case error s of
        Some (message, type) \<Rightarrow> ErrorPanel message (\<not> isInitializing s)
      | None \<Rightarrow> VideoView)"

section \<open>Audio codec helpers (services/geminiService.ts)\<close>

text \<open>
  \<^verbatim>\<open>encodeAudio\<close> and \<^verbatim>\<open>decodeAudio\<close> go through the platform functions \<^verbatim>\<open>btoa\<close> and
  \<^verbatim>\<open>atob\<close>, which are no code of this repository. They are modelled here as the HTML
  standard specifies them: \<^verbatim>\<open>btoa\<close> is base64 encoding (RFC 4648, with padding) of a
  string of code units below 256, and \<^verbatim>\<open>atob\<close> is the standard's forgiving-base64
  decoding. A binary string is a \<open>string\<close>, its characters being the eight-bit code
  units.
\<close>

definition b64_alphabet :: string where
  "b64_alphabet = ''ABCDEFGHIJKLMNOPQRSTUVWXYZabcdefghijklmnopqrstuvwxyz0123456789+/''"

definition b64_char :: "nat \<Rightarrow> char" where
  "b64_char n = b64_alphabet ! n"

fun index_in :: "'a list \<Rightarrow> 'a \<Rightarrow> nat option" where
  "index_in [] c = None"
| "index_in (x # xs) c = (if x = c then Some 0 else map_option Suc (index_in xs c))"

definition b64_index :: "char \<Rightarrow> nat option" where
  "b64_index c = index_in b64_alphabet c"

text \<open>Three octets become four six-bit groups; one or two trailing octets are padded with zero bits.\<close>

fun sextets :: "nat list \<Rightarrow> nat list" where
  "sextets [] = []"
| "sextets [a] = [a div 4, (a mod 4) * 16]"
| "sextets [a, b] = [a div 4, (a mod 4) * 16 + b div 16, (b mod 16) * 4]"
| "sextets (a # b # c # rest) =
     [a div 4, (a mod 4) * 16 + b div 16, (b mod 16) * 4 + c div 64, c mod 64] @ sextets rest"

text \<open>
  \<^verbatim>\<open>btoa\<close>. (It throws when a code unit exceeds 255; the characters of a \<open>string\<close>
  never do, as the ones \<^verbatim>\<open>encodeAudio\<close> builds from bytes never do.)
\<close>

definition btoa :: "string \<Rightarrow> string" where
  "btoa s = map b64_char (sextets (map of_char s))
            @ replicate ((3 - length s mod 3) mod 3) CHR ''=''"

text \<open>Four six-bit groups become three octets; a rest of two or three groups gives one or two octets.\<close>

fun octets :: "nat list \<Rightarrow> nat list" where
  "octets [] = []"
| "octets [p] = []"
| "octets [p, q] = [p * 4 + q div 16]"
| "octets [p, q, r] = [p * 4 + q div 16, (q mod 16) * 16 + r div 4]"
| "octets (p # q # r # s # rest) =
     [p * 4 + q div 16, (q mod 16) * 16 + r div 4, (r mod 4) * 64 + s] @ octets rest"

text \<open>ASCII white space: tab, line feed, form feed, carriage return, space.\<close>

definition is_ascii_whitespace :: "char \<Rightarrow> bool" where
  "is_ascii_whitespace c = ((of_char c :: nat) \<in> {9, 10, 12, 13, 32})"

text \<open>"If data ends with one or two U+003D (=) code points, then remove them from data."\<close>

definition strip_padding :: "string \<Rightarrow> string" where
  "strip_padding d =
     (case rev d of
        [] \<Rightarrow> d
      | c1 # r1 \<Rightarrow>
          if c1 = CHR ''='' then
            (case r1 of
               [] \<Rightarrow> rev r1
             | c2 # r2 \<Rightarrow> if c2 = CHR ''='' then rev r2 else rev r1)
          else d)"

fun all_some :: "'a option list \<Rightarrow> 'a list option" where
  "all_some [] = Some []"
| "all_some (None # xs) = None"
| "all_some (Some x # xs) = (case all_some xs of None \<Rightarrow> None | Some ys \<Rightarrow> Some (x # ys))"

text \<open>
  \<^verbatim>\<open>atob\<close>: white space is removed; padding is removed when the length is a multiple
  of four; a length that leaves remainder one, or a character outside the alphabet, is a
  failure (\<^verbatim>\<open>InvalidCharacterError\<close>, here \<open>None\<close>); the rest is decoded.
\<close>

definition atob :: "string \<Rightarrow> string option" where
  "atob data =
     (let d1 = filter (\<lambda>c. \<not> is_ascii_whitespace c) data;
          d2 = (if length d1 mod 4 = 0 then strip_padding d1 else d1)
      in if length d2 mod 4 = 1 then None
         else (case all_some (map b64_index d2) of
                 None \<Rightarrow> None
               | Some vs \<Rightarrow> Some (map char_of (octets vs))))"

text \<open>
  \<^verbatim>\<open>encodeAudio\<close>: the loop appends \<^verbatim>\<open>String.fromCharCode(bytes[i])\<close> for every byte of
  the \<^verbatim>\<open>Uint8Array\<close>, then \<^verbatim>\<open>btoa\<close>.
\<close>

definition encodeAudio :: "8 word list \<Rightarrow> string" where
  "encodeAudio bytes = btoa (map (\<lambda>b. char_of (unat b)) bytes)"

text \<open>
  \<^verbatim>\<open>decodeAudio\<close>: \<^verbatim>\<open>atob\<close>, then the loop stores \<^verbatim>\<open>binaryString.charCodeAt(i)\<close> into a
  \<^verbatim>\<open>Uint8Array\<close> of the same length. An exception of \<^verbatim>\<open>atob\<close> is not caught here.
\<close>

definition decodeAudio :: "string \<Rightarrow> 8 word list option" where
  "decodeAudio base64 =
     (case atob base64 of
        None \<Rightarrow> None
      | Some binaryString \<Rightarrow> Some (map (\<lambda>c. of_nat (of_char c)) binaryString))"

section \<open>Capture scheduler (the effect on \<^verbatim>\<open>[active, settings.intervalHours]\<close> in App.tsx)\<close>

text \<open>
  The effect uses the platform timers. They are modelled as ideal timers on a clock that
  counts milliseconds: \<^verbatim>\<open>setTimeout\<close> registers a one-shot timer (identifier, due time),
  \<^verbatim>\<open>setInterval\<close> a repeating one (identifier, period, next due time), and
  \<^verbatim>\<open>clearInterval\<close> removes the timer with the given identifier, if any. The state
  further holds the ref \<^verbatim>\<open>intervalRef\<close>, the dependency values of the last run of the
  effect, and the times at which a timer has called \<^verbatim>\<open>captureAndProcess\<close>.
\<close>

record scheduler =
  clock :: nat
  next_id :: nat
  timeouts :: "(nat \<times> nat) list"
  intervals :: "(nat \<times> nat \<times> nat) list"
  intervalRef :: "nat option"
  deps :: "bool \<times> nat"
  captures :: "nat list"

definition setTimeout :: "nat \<Rightarrow> scheduler \<Rightarrow> scheduler" where
  "setTimeout delay s =
     s\<lparr>timeouts := timeouts s @ [(next_id s, clock s + delay)], next_id := Suc (next_id s)\<rparr>"

definition setInterval :: "nat \<Rightarrow> scheduler \<Rightarrow> nat \<times> scheduler" where
  "setInterval period s =
     (next_id s,
      s\<lparr>intervals := intervals s @ [(next_id s, period, clock s + period)],
        next_id := Suc (next_id s)\<rparr>)"

definition clearInterval :: "nat option \<Rightarrow> scheduler \<Rightarrow> scheduler" where
  "clearInterval ref s =
     (case ref of
        None \<Rightarrow> s
      | Some i \<Rightarrow>
          s\<lparr>timeouts := filter (\<lambda>(j, due). j \<noteq> i) (timeouts s),
            intervals := filter (\<lambda>(j, period, due). j \<noteq> i) (intervals s)\<rparr>)"

text \<open>
  The body of the effect. \<open>intervalMs\<close> is \<^verbatim>\<open>settings.intervalHours * 60 * 60 * 1000\<close>
  and \<open>images_empty\<close> is \<^verbatim>\<open>images.length === 0\<close>, both as seen by the render that
  created the effect.
\<close>

definition scheduler_effect :: "bool \<Rightarrow> nat \<Rightarrow> bool \<Rightarrow> scheduler \<Rightarrow> scheduler" where
  "scheduler_effect active intervalMs images_empty s =
     (if active then
        (let s1 = (if images_empty then setTimeout 1000 s else s);
             (i, s2) = setInterval intervalMs s1
         in s2\<lparr>intervalRef := Some i\<rparr>)
      else
        (case intervalRef s of
           None \<Rightarrow> s
         | Some i \<Rightarrow> clearInterval (Some i) s))"

text \<open>The function returned by the effect: \<^verbatim>\<open>() => clearInterval(intervalRef.current)\<close>.\<close>

definition scheduler_cleanup :: "scheduler \<Rightarrow> scheduler" where
  "scheduler_cleanup s = clearInterval (intervalRef s) s"

text \<open>
  A render with the given values of \<^verbatim>\<open>active\<close> and the interval: when a dependency has
  changed since the last run, React first runs the cleanup of that run and then the
  body again; otherwise nothing happens.
\<close>

definition rerender :: "bool \<Rightarrow> nat \<Rightarrow> bool \<Rightarrow> scheduler \<Rightarrow> scheduler" where
  "rerender active intervalMs images_empty s =
     (if deps s = (active, intervalMs) then s
      else (scheduler_effect active intervalMs images_empty (scheduler_cleanup s))
             \<lparr>deps := (active, intervalMs)\<rparr>)"

text \<open>
  One millisecond passes: every timer that is due at the new clock value fires, which
  calls \<^verbatim>\<open>captureAndProcess\<close>; a one-shot timer is removed, a repeating one is due
  again one period later.
\<close>

definition tick :: "scheduler \<Rightarrow> scheduler" where
  "tick s =
     (let t = Suc (clock s);
          fired_timeouts = filter (\<lambda>(i, due). due = t) (timeouts s);
          fired_intervals = filter (\<lambda>(i, period, due). due = t) (intervals s)
      in s\<lparr>clock := t,
           timeouts := filter (\<lambda>(i, due). due \<noteq> t) (timeouts s),
           intervals := map (\<lambda>(i, period, due). if due = t then (i, period, due + period)
                                                else (i, period, due)) (intervals s),
           captures := captures s @ replicate (length fired_timeouts + length fired_intervals) t\<rparr>)"

fun advance :: "nat \<Rightarrow> scheduler \<Rightarrow> scheduler" where
  "advance 0 s = s"
| "advance (Suc n) s = advance n (tick s)"

text \<open>
  The state after mounting at time \<open>t0\<close> with \<^verbatim>\<open>active\<close> false (its initial value) and
  the interval \<open>i0\<close>: the first run of the effect takes the else branch with a null ref
  and does nothing.
\<close>

definition scheduler_init :: "nat \<Rightarrow> nat \<Rightarrow> scheduler" where
  "scheduler_init t0 i0 =
     \<lparr>clock = t0, next_id = 1, timeouts = [], intervals = [], intervalRef = None,
      deps = (False, i0), captures = []\<rparr>"

text \<open>
  Every registered timer is due in the future and every period is positive; and the
  number of timer calls that the timers of a state make at time \<open>t\<close>.
\<close>

definition pending :: "scheduler \<Rightarrow> bool" where
  "pending s =
     (list_all (\<lambda>(i, due). clock s < due) (timeouts s)
      \<and> list_all (\<lambda>(i, period, due). clock s < due \<and> 0 < period) (intervals s))"

definition due_count :: "scheduler \<Rightarrow> nat \<Rightarrow> nat" where
  "due_count s t =
     length (filter (\<lambda>(i, due). due = t) (timeouts s))
     + length (filter (\<lambda>(i, period, due). due \<le> t \<and> period dvd (t - due)) (intervals s))"

section \<open>Live session bridge: set-up and teardown (the effect of components/LiveAudio.tsx)\<close>

text \<open>
  One run of the effect on \<^verbatim>\<open>[facingMode]\<close>, from mounting to its cleanup, together with
  the callbacks the run has registered. The state holds the closure variable
  \<^verbatim>\<open>cleanup\<close>, the refs the cleanup reads (\<^verbatim>\<open>streamRef\<close>, the two audio context refs,
  where \<open>Some True\<close> is an open context and \<open>Some False\<close> a closed one,
  \<^verbatim>\<open>sessionRef\<close>, and whether the interval in \<^verbatim>\<open>videoIntervalRef\<close> is live), whether the
  audio processor is installed, the asynchronous operations in flight, the handles on
  whose tracks \<^verbatim>\<open>stop()\<close> has been called, and the calls of
  \<^verbatim>\<open>session.sendRealtimeInput\<close> made so far.
\<close>

datatype realtime_input = AudioChunk | ImageFrame

record bridge =
  cleanup_flag :: bool
  streamRef :: "media_stream option"
  inputAudioContextRef :: "bool option"
  outputAudioContextRef :: "bool option"
  sessionRef :: bool
  processor :: bool
  videoInterval :: bool
  pending_stream :: bool
  pending_session :: bool
  pending_frames :: nat
  stop_calls :: "nat list"
  sends :: "realtime_input list"

text \<open>
  The events of the single-threaded event loop: \<^verbatim>\<open>getUserMedia\<close> resolves with a stream
  or rejects; the promise of \<^verbatim>\<open>connectToLiveAPI\<close> resolves; the script processor
  delivers an audio buffer; the video interval fires (with the flag telling whether the
  video has enough data); the encoding of a frame started by \<^verbatim>\<open>canvas.toBlob\<close> and
  continued by \<^verbatim>\<open>blobToBase64\<close> completes; and the cleanup function of the effect runs
  (the component is closed, or \<^verbatim>\<open>facingMode\<close> changes).
\<close>

datatype bridge_event =
    StreamReady nat
  | StreamFailed
  | SessionReady
  | AudioProcess
  | VideoTick bool
  | FrameEncoded
  | Teardown

text \<open>
  The state when the effect has started on a fresh component: \<^verbatim>\<open>initSession\<close> waits in
  \<^verbatim>\<open>startStream\<close> for \<^verbatim>\<open>getUserMedia\<close>; no ref is set yet.
\<close>

definition bridge_mount :: bridge where
  "bridge_mount =
     \<lparr>cleanup_flag = False, streamRef = None, inputAudioContextRef = None,
      outputAudioContextRef = None, sessionRef = False, processor = False,
      videoInterval = False, pending_stream = True, pending_session = False,
      pending_frames = 0, stop_calls = [], sends = []\<rparr>"

text \<open>The function returned by the effect (lines 200 to 207).\<close>

definition teardown :: "bridge \<Rightarrow> bridge" where
  "teardown s =
     (let s1 = s\<lparr>cleanup_flag := True, videoInterval := False\<rparr>;
          s2 = (case streamRef s1 of
                  None \<Rightarrow> s1
                | Some m \<Rightarrow> s1\<lparr>streamRef := Some (m\<lparr>live := False\<rparr>),
                               stop_calls := stop_calls s1 @ [handle m]\<rparr>);
          s3 = (case inputAudioContextRef s2 of
                  None \<Rightarrow> s2
                | Some c \<Rightarrow> s2\<lparr>inputAudioContextRef := Some False\<rparr>)
      in (case outputAudioContextRef s3 of
            None \<Rightarrow> s3
          | Some c \<Rightarrow> s3\<lparr>outputAudioContextRef := Some False\<rparr>))"

text \<open>
  One event. \<open>StreamReady\<close>: \<^verbatim>\<open>startStream\<close> stores the stream and \<^verbatim>\<open>initSession\<close> goes on
  at once to create both audio contexts and to connect. \<open>SessionReady\<close>: the
  \<^verbatim>\<open>then\<close> callback, which returns when \<^verbatim>\<open>cleanup\<close> is set and otherwise stores the
  session, installs the audio processor and starts the video interval. \<open>AudioProcess\<close>:
  delivered by the platform only while the processor is installed on an open input
  context; sends unless \<^verbatim>\<open>sessionRef.current\<close> is empty. \<open>VideoTick\<close>: delivered only
  while the interval is live, when the video and canvas elements are mounted; starts
  the encoding of a frame when the session is stored and the video is ready.
  \<open>FrameEncoded\<close>: the callback of a started encoding, called with the encoded blob; it
  sends the frame without looking at any ref or flag.
\<close>

fun bridge_step :: "bridge_event \<Rightarrow> bridge \<Rightarrow> bridge" where
  "bridge_step (StreamReady h) s =
     (if pending_stream s
      then s\<lparr>pending_stream := False, streamRef := Some \<lparr>handle = h, live = True\<rparr>,
             inputAudioContextRef := Some True, outputAudioContextRef := Some True,
             pending_session := True\<rparr>
      else s)"
| "bridge_step StreamFailed s = s\<lparr>pending_stream := False\<rparr>"
| "bridge_step SessionReady s =
     (if pending_session s
      then (if cleanup_flag s then s\<lparr>pending_session := False\<rparr>
            else s\<lparr>pending_session := False, sessionRef := True,
                   processor := (inputAudioContextRef s \<noteq> None), videoInterval := True\<rparr>)
      else s)"
| "bridge_step AudioProcess s =
     (if processor s \<and> inputAudioContextRef s = Some True
      then (if sessionRef s then s\<lparr>sends := sends s @ [AudioChunk]\<rparr> else s)
      else s)"
| "bridge_step (VideoTick ready) s =
     (if videoInterval s
      then (if sessionRef s \<and> ready then s\<lparr>pending_frames := Suc (pending_frames s)\<rparr> else s)
      else s)"
| "bridge_step FrameEncoded s =
     (case pending_frames s of
        0 \<Rightarrow> s
      | Suc k \<Rightarrow> s\<lparr>pending_frames := k, sends := sends s @ [ImageFrame]\<rparr>)"
| "bridge_step Teardown s = teardown s"

fun bridge_run :: "bridge_event list \<Rightarrow> bridge \<Rightarrow> bridge" where
  "bridge_run [] s = s"
| "bridge_run (e # es) s = bridge_run es (bridge_step e s)"

section \<open>Properties\<close>

subsection \<open>Playback watermark\<close>

lemma handleAudioData_step:
  "handleAudioData (Some now) (Some d) s =
     s\<lparr>started := started s @ [(max now (nextStartTime s), d)],
       nextStartTime := max now (nextStartTime s) + d\<rparr>"
  by (simp add: handleAudioData_def Let_def)

lemma play_snoc:
  "play (xs @ [(now, d)]) s = handleAudioData (Some now) (Some d) (play xs s)"
  by (induction xs arbitrary: s) auto

lemma play_length: "length (started (play xs s)) = length (started s) + length xs"
  by (induction xs arbitrary: s) (auto simp: handleAudioData_step)

lemma schedule_snoc:
  "schedule (xs @ [(now, d)]) =
     schedule xs @ [(max now (nextStartTime (play xs audio_init)), d)]"
  by (simp add: schedule_def play_snoc handleAudioData_step)

lemma schedule_length: "length (schedule xs) = length xs"
  by (simp add: schedule_def play_length audio_init_def)

lemma schedule_nth_prefix:
  "i < length xs \<Longrightarrow> schedule (xs @ ys) ! i = schedule xs ! i"
proof (induction ys rule: rev_induct)
  case Nil
  then show ?case by simp
next
  case (snoc y ys)
  obtain now d where y: "y = (now, d)" by (cases y)
  have "schedule ((xs @ ys) @ [(now, d)]) ! i = schedule (xs @ ys) ! i"
    using snoc.prems by (simp only: schedule_snoc) (simp add: nth_append schedule_length)
  then show ?case using snoc by (simp add: y)
qed

lemma schedule_nth:
  "i < length xs \<Longrightarrow>
   schedule xs ! i =
     (max (fst (xs ! i)) (nextStartTime (play (take i xs) audio_init)), snd (xs ! i))"
proof -
  assume i: "i < length xs"
  have split: "xs = (take i xs @ [xs ! i]) @ drop (Suc i) xs"
    using i by (simp add: Cons_nth_drop_Suc)
  obtain now d where x: "xs ! i = (now, d)" by (cases "xs ! i")
  have "schedule xs ! i = schedule (take i xs @ [xs ! i]) ! i"
    using i schedule_nth_prefix [of i "take i xs @ [xs ! i]" "drop (Suc i) xs"] split by simp
  also have "\<dots> = (max now (nextStartTime (play (take i xs) audio_init)), d)"
    using i by (simp add: x schedule_snoc nth_append schedule_length)
  finally show ?thesis by (simp add: x)
qed

lemma watermark_after:
  "i < length xs \<Longrightarrow>
   nextStartTime (play (take (Suc i) xs) audio_init) = fst (schedule xs ! i) + snd (schedule xs ! i)"
proof -
  assume i: "i < length xs"
  obtain now d where x: "xs ! i = (now, d)" by (cases "xs ! i")
  have "take (Suc i) xs = take i xs @ [(now, d)]"
    using i x by (simp add: take_Suc_conv_app_nth)
  then show ?thesis
    using i by (simp add: play_snoc handleAudioData_step schedule_nth x)
qed

lemma schedule_consecutive:
  "Suc i < length xs \<Longrightarrow>
   fst (schedule xs ! Suc i) = max (fst (xs ! Suc i)) (fst (schedule xs ! i) + snd (schedule xs ! i))"
  by (simp add: schedule_nth watermark_after)

lemma schedule_no_overlap:
  assumes "\<forall>a \<in> set xs. 0 \<le> snd a" and "i < j" and "j < length xs"
  shows "fst (schedule xs ! i) + snd (schedule xs ! i) \<le> fst (schedule xs ! j)"
  using assms(2,3)
proof (induction j)
  case 0
  then show ?case by simp
next
  case (Suc j)
  have step: "fst (schedule xs ! j) + snd (schedule xs ! j) \<le> fst (schedule xs ! Suc j)"
    using Suc.prems by (simp add: schedule_consecutive)
  show ?case
  proof (cases "i = j")
    case True
    then show ?thesis using step by simp
  next
    case False
    then have "fst (schedule xs ! i) + snd (schedule xs ! i) \<le> fst (schedule xs ! j)"
      using Suc by simp
    moreover have "0 \<le> snd (schedule xs ! j)"
      using Suc.prems assms(1) by (simp add: schedule_nth)
    ultimately show ?thesis using step by linarith
  qed
qed

text \<open>
  On the first output context of the component, whose watermark starts at 0: every
  inbound buffer is started at \<open>max currentTime watermark\<close> and the watermark becomes
  that start plus the buffer's duration. Hence, for every arrival sequence on that
  context (with non-negative durations), the buffers are played in arrival order with
  their own durations, none starts before it arrived, no two of them overlap, and each
  starts exactly at the later of its arrival and the end of its predecessor. Buffers of
  0.5 s arriving at 0, 0.2 and 1.5 start at 0, 0.5 and 1.5.
\<close>

theorem watermark_scheduling:
  "handleAudioData (Some now) (Some d) s =
     s\<lparr>started := started s @ [(max now (nextStartTime s), d)],
       nextStartTime := max now (nextStartTime s) + d\<rparr>
   \<and> length (schedule arrivals) = length arrivals
   \<and> (j < length arrivals \<longrightarrow>
        snd (schedule arrivals ! j) = snd (arrivals ! j)
        \<and> fst (arrivals ! j) \<le> fst (schedule arrivals ! j)
        \<and> (j = 0 \<longrightarrow> fst (schedule arrivals ! j) = max (fst (arrivals ! j)) 0))
   \<and> (Suc j < length arrivals \<longrightarrow>
        fst (schedule arrivals ! Suc j) =
          max (fst (arrivals ! Suc j)) (fst (schedule arrivals ! j) + snd (schedule arrivals ! j)))
   \<and> ((\<forall>a \<in> set arrivals. 0 \<le> snd a) \<and> i < j \<and> j < length arrivals \<longrightarrow>
        fst (schedule arrivals ! i) + snd (schedule arrivals ! i) \<le> fst (schedule arrivals ! j))
   \<and> map fst (schedule [(0, 0.5), (0.2, 0.5), (1.5, 0.5)]) = [0, 0.5, 1.5]"
proof (intro conjI impI)
  show "handleAudioData (Some now) (Some d) s =
     s\<lparr>started := started s @ [(max now (nextStartTime s), d)],
       nextStartTime := max now (nextStartTime s) + d\<rparr>"
    by (rule handleAudioData_step)
  show "length (schedule arrivals) = length arrivals"
    by (rule schedule_length)
  show "snd (schedule arrivals ! j) = snd (arrivals ! j)" if "j < length arrivals"
    using that by (simp add: schedule_nth)
  show "fst (arrivals ! j) \<le> fst (schedule arrivals ! j)" if "j < length arrivals"
    using that by (simp add: schedule_nth)
  show "fst (schedule arrivals ! j) = max (fst (arrivals ! j)) 0"
    if "j < length arrivals" and "j = 0"
    using that by (simp add: schedule_nth audio_init_def)
  show "fst (schedule arrivals ! Suc j) =
          max (fst (arrivals ! Suc j)) (fst (schedule arrivals ! j) + snd (schedule arrivals ! j))"
    if "Suc j < length arrivals"
    using that by (rule schedule_consecutive)
  show "fst (schedule arrivals ! i) + snd (schedule arrivals ! i) \<le> fst (schedule arrivals ! j)"
    if "(\<forall>a \<in> set arrivals. 0 \<le> snd a) \<and> i < j \<and> j < length arrivals"
    using that schedule_no_overlap by blast
  show "map fst (schedule [(0, 0.5), (0.2, 0.5), (1.5, 0.5)]) = [0, 0.5, 1.5]"
    by (simp add: schedule_def audio_init_def handleAudioData_step)
qed

theorem watermark_scheduling_witness:
  "list_all (\<lambda>a. 0 \<le> snd a) [(0::real, 0.5::real), (0.2, 0.5), (1.5, 0.5)]
   \<and> (0::nat) < 1 \<and> Suc 1 < length [(0::real, 0.5::real), (0.2, 0.5), (1.5, 0.5)]
   \<and> fst (schedule [(0::real, 0.5::real), (0.2, 0.5), (1.5, 0.5)] ! 0)
        + snd (schedule [(0::real, 0.5::real), (0.2, 0.5), (1.5, 0.5)] ! 0)
      \<le> fst (schedule [(0::real, 0.5::real), (0.2, 0.5), (1.5, 0.5)] ! 1)
   \<and> fst (schedule [(0::real, 0.5::real), (0.2, 0.5), (1.5, 0.5)] ! Suc 1) =
        max 1.5 (fst (schedule [(0::real, 0.5::real), (0.2, 0.5), (1.5, 0.5)] ! 1)
                 + snd (schedule [(0::real, 0.5::real), (0.2, 0.5), (1.5, 0.5)] ! 1))
   \<and> snd (schedule [(0::real, 0.5::real), (0.2, 0.5), (1.5, 0.5)] ! 1) = 0.5"
  using watermark_scheduling [where arrivals = "[(0::real, 0.5::real), (0.2, 0.5), (1.5, 0.5)]" and i = 0 and j = 1]
  by simp

text \<open>
  C1. The scheduling rule is \<open>startTime = max now watermark\<close>, but the watermark
  outlives the output context it was computed on. After a camera switch the first
  buffer on the new context, on which nothing is playing, is not started when it
  arrives: it is started at the watermark left by the closed context. With one buffer
  of 0.5 s scheduled at 57.8 before the switch, a buffer that arrives when the new
  context's clock shows 2 is started at 58.3, after 56.3 seconds of silence that no
  earlier buffer on that context accounts for.
\<close>

theorem stale_watermark_after_camera_switch:
  "started (handleAudioData (Some now) (Some d) (recreate_output_context s))
     = [(max now (nextStartTime s), d)]
   \<and> started (recreate_output_context (play [(57.8, 0.5)] audio_init)) = []
   \<and> nextStartTime (recreate_output_context (play [(57.8, 0.5)] audio_init)) = 58.3
   \<and> started (handleAudioData (Some 2) (Some 0.5)
         (recreate_output_context (play [(57.8, 0.5)] audio_init)))
     = [(58.3, 0.5)]"
  by (simp add: handleAudioData_step recreate_output_context_def audio_init_def)

subsection \<open>Enrichment\<close>

lemma merge_analysis_id: "id_str (merge_analysis text img) = id_str img"
  by (simp add: merge_analysis_def Let_def)

lemma enrich_absent: "newId \<notin> set (map id_str imgs) \<Longrightarrow> enrich newId text imgs = imgs"
  by (induction imgs) (auto simp: enrich_def)

lemma enrich_ids: "map id_str (enrich newId text imgs) = map id_str imgs"
  by (induction imgs) (auto simp: enrich_def merge_analysis_id)

lemma analysis_done_ids: "map id_str (analysis_done newId response imgs) = map id_str imgs"
  by (cases response) (simp_all add: analysis_done_def enrich_ids)

text \<open>
  C3. Enrichment goes by identifier. When no entry of the timeline carries the
  identifier (for instance because a purge emptied the list while the request was in
  flight) the update returns the list as it was, whatever the response; it never changes
  the length of the list nor the identifiers in it. When entries carry the identifier,
  exactly those are replaced by their merge with the analysis, and every other entry is
  returned unchanged. A failed response changes nothing.
\<close>

theorem enrichment_by_identifier:
  "(newId \<notin> set (map id_str imgs) \<longrightarrow> analysis_done newId response imgs = imgs)
   \<and> analysis_done newId response (purge imgs) = []
   \<and> length (analysis_done newId response imgs) = length imgs
   \<and> map id_str (analysis_done newId response imgs) = map id_str imgs
   \<and> (k < length imgs \<and> id_str (imgs ! k) \<noteq> newId \<longrightarrow>
        analysis_done newId response imgs ! k = imgs ! k)
   \<and> (k < length imgs \<and> id_str (imgs ! k) = newId \<longrightarrow>
        analysis_done newId (Some body) imgs ! k = merge_analysis body (imgs ! k)
        \<and> analysis_done newId None imgs ! k = imgs ! k)"
proof (intro conjI impI)
  show "analysis_done newId response imgs = imgs" if "newId \<notin> set (map id_str imgs)"
    using that by (cases response) (simp_all add: analysis_done_def enrich_absent)
  show "analysis_done newId response (purge imgs) = []"
    by (cases response) (simp_all add: analysis_done_def purge_def enrich_def)
  show "length (analysis_done newId response imgs) = length imgs"
    by (cases response) (simp_all add: analysis_done_def enrich_def)
  show "map id_str (analysis_done newId response imgs) = map id_str imgs"
    by (rule analysis_done_ids)
  show "analysis_done newId response imgs ! k = imgs ! k"
    if "k < length imgs \<and> id_str (imgs ! k) \<noteq> newId"
    using that by (cases response) (simp_all add: analysis_done_def enrich_def)
  show "analysis_done newId (Some body) imgs ! k = merge_analysis body (imgs ! k)"
    if "k < length imgs \<and> id_str (imgs ! k) = newId"
    using that by (simp add: analysis_done_def enrich_def)
  show "analysis_done newId None imgs ! k = imgs ! k"
    by (simp add: analysis_done_def)
qed

theorem enrichment_by_identifier_witness:
  "''3'' \<notin> set (map id_str [newImage ''u'' 1 1, newImage ''v'' 2 2])
   \<and> analysis_done ''3'' (Some ''[HEALTH: HEALTHY]'') [newImage ''u'' 1 1, newImage ''v'' 2 2]
       = [newImage ''u'' 1 1, newImage ''v'' 2 2]
   \<and> (0::nat) < length [newImage ''u'' 1 1, newImage ''v'' 2 2]
   \<and> id_str ([newImage ''u'' 1 1, newImage ''v'' 2 2] ! 0) \<noteq> ''2''
   \<and> analysis_done ''2'' (Some ''[HEALTH: HEALTHY]'') [newImage ''u'' 1 1, newImage ''v'' 2 2] ! 0
       = [newImage ''u'' 1 1, newImage ''v'' 2 2] ! 0
   \<and> (1::nat) < length [newImage ''u'' 1 1, newImage ''v'' 2 2]
   \<and> id_str ([newImage ''u'' 1 1, newImage ''v'' 2 2] ! 1) = ''2''
   \<and> analysis_done ''2'' (Some ''[HEALTH: HEALTHY]'') [newImage ''u'' 1 1, newImage ''v'' 2 2] ! 1
       = merge_analysis ''[HEALTH: HEALTHY]'' ([newImage ''u'' 1 1, newImage ''v'' 2 2] ! 1)"
proof -
  let ?imgs = "[newImage ''u'' 1 1, newImage ''v'' 2 2]"
  let ?r = "Some ''[HEALTH: HEALTHY]''"
  have h1: "''3'' \<notin> set (map id_str ?imgs)" by code_simp
  have h2: "(0::nat) < length ?imgs \<and> id_str (?imgs ! 0) \<noteq> ''2''" by code_simp
  have h3: "(1::nat) < length ?imgs \<and> id_str (?imgs ! 1) = ''2''" by code_simp
  have c1: "analysis_done ''3'' ?r ?imgs = ?imgs"
    using h1 enrichment_by_identifier [where newId = "''3''" and imgs = ?imgs and response = ?r]
    by blast
  have c2: "analysis_done ''2'' ?r ?imgs ! 0 = ?imgs ! 0"
    using h2 enrichment_by_identifier [where newId = "''2''" and imgs = ?imgs and response = ?r and k = 0]
    by blast
  have c3: "analysis_done ''2'' ?r ?imgs ! 1 = merge_analysis ''[HEALTH: HEALTHY]'' (?imgs ! 1)"
    using h3 enrichment_by_identifier [where newId = "''2''" and imgs = ?imgs and k = 1
        and body = "''[HEALTH: HEALTHY]''"]
    by blast
  show ?thesis using h1 h2 h3 c1 c2 c3 by blast
qed

subsection \<open>Camera\<close>

lemma classify_error_type:
  "snd (classify_error name) = ''permission'' \<or> snd (classify_error name) = ''hardware''
   \<or> snd (classify_error name) = ''unknown''"
  by (simp add: classify_error_def)

text \<open>
  C8. Acquiring the camera ends in one of two ways. Either the try block yields a
  stream, which becomes the live source and the video is rendered; or it throws, and the
  error state holds the message and the type computed from the name of the exception:
  \<open>permission\<close> exactly for NotAllowedError and PermissionDeniedError, \<open>hardware\<close>
  exactly for NotFoundError and DevicesNotFoundError, \<open>unknown\<close> for every other name.
  The failure is rendered as the inline panel with the retry button enabled, and a
  retry that succeeds brings the video back.
\<close>

theorem camera_acquisition_outcome:
  "(case outcome of
      Inr (h, torch) \<Rightarrow>
        error (startCamera outcome s) = None
        \<and> srcObject (startCamera outcome s) = Some \<lparr>handle = h, live = True\<rparr>
        \<and> render_camera (startCamera outcome s) = VideoView
    | Inl name \<Rightarrow>
        error (startCamera outcome s) = Some (classify_error name)
        \<and> render_camera (startCamera outcome s) = ErrorPanel (fst (classify_error name)) True
        \<and> render_camera (startCamera (Inr (h', torch')) (startCamera outcome s)) = VideoView)
   \<and> isInitializing (startCamera outcome s) = False
   \<and> snd (classify_error name) \<in> {''permission'', ''hardware'', ''unknown''}
   \<and> (snd (classify_error name) = ''permission'' \<longleftrightarrow>
        name \<in> {''NotAllowedError'', ''PermissionDeniedError''})
   \<and> (snd (classify_error name) = ''hardware'' \<longleftrightarrow>
        name \<in> {''NotFoundError'', ''DevicesNotFoundError''})
   \<and> (snd (classify_error name) = ''unknown'' \<longleftrightarrow>
        name \<notin> {''NotAllowedError'', ''PermissionDeniedError'', ''NotFoundError'', ''DevicesNotFoundError''})"
  by (auto simp: startCamera_def startCamera_begin_def startCamera_end_def render_camera_def
        classify_error_def split: sum.splits prod.splits option.splits)

subsection \<open>The matchers against the tag grammar\<close>

lemma match_lit_i_sound:
  "match_lit_i p s = Some r \<Longrightarrow> \<exists>kw. s = kw @ r \<and> map upper_ascii kw = map upper_ascii p"
proof (induction p s rule: match_lit_i.induct)
  case (1 s)
  then show ?case by simp
next
  case (2 p ps)
  then show ?case by simp
next
  case (3 p ps c cs)
  then have eq: "upper_ascii p = upper_ascii c" and rest: "match_lit_i ps cs = Some r"
    by (auto split: if_splits)
  from 3(1) [OF eq rest] obtain kw where "cs = kw @ r" "map upper_ascii kw = map upper_ascii ps"
    by blast
  then have "c # cs = (c # kw) @ r \<and> map upper_ascii (c # kw) = map upper_ascii (p # ps)"
    using eq by simp
  then show ?case by blast
qed

lemma match_lit_i_complete:
  "map upper_ascii kw = map upper_ascii p \<Longrightarrow> match_lit_i p (kw @ r) = Some r"
proof (induction p arbitrary: kw)
  case Nil
  then show ?case by simp
next
  case (Cons a p)
  then obtain c kw' where "kw = c # kw'" by (cases kw) auto
  then show ?case using Cons by simp
qed

lemma regex_search_sound:
  "regex_search m s = Some r \<Longrightarrow> \<exists>pre suf. s = pre @ suf \<and> m suf = Some r"
proof (induction s)
  case Nil
  then show ?case by simp
next
  case (Cons c cs)
  show ?case
  proof (cases "m (c # cs)")
    case None
    then have "regex_search m cs = Some r" using Cons.prems by simp
    from Cons.IH [OF this] obtain pre suf where "cs = pre @ suf" "m suf = Some r" by blast
    then have "c # cs = (c # pre) @ suf \<and> m suf = Some r" by simp
    then show ?thesis by blast
  next
    case (Some a)
    then have "c # cs = [] @ (c # cs) \<and> m (c # cs) = Some r" using Cons.prems by simp
    then show ?thesis by blast
  qed
qed

lemma regex_search_complete:
  "m suf = Some r \<Longrightarrow> regex_search m (pre @ suf) \<noteq> None"
proof (induction pre)
  case Nil
  then show ?case by (cases suf) simp_all
next
  case (Cons c pre)
  then show ?case by (cases "m (c # pre @ suf)") simp_all
qed

lemma digit_not_space: "is_digit c \<Longrightarrow> \<not> is_space c"
  by (auto simp: is_digit_def is_space_def)

lemma percent_bracket_not_digit: "\<not> is_digit CHR ''%''" "\<not> is_digit CHR '']''"
  by (simp_all add: is_digit_def)

lemma confidence_keyword: "map upper_ascii ''[CONFIDENCE:'' = ''[CONFIDENCE:''"
  by code_simp

lemma health_keyword: "map upper_ascii ''[HEALTH:'' = ''[HEALTH:''"
  by code_simp

lemma match_confidence_at_Some:
  "match_confidence_at s = Some ds \<longleftrightarrow>
     (\<exists>r. match_lit_i ''[CONFIDENCE:'' s = Some r
          \<and> ds = takeWhile is_digit (dropWhile is_space r) \<and> ds \<noteq> []
          \<and> closing_bracket (opt_percent (dropWhile is_digit (dropWhile is_space r))))"
  by (auto simp: match_confidence_at_def Let_def split: option.splits)

lemma percent_then_bracket:
  "closing_bracket (opt_percent r) \<Longrightarrow>
   \<exists>pct post. r = pct @ '']'' @ post \<and> (pct = [] \<or> pct = ''%'')"
proof (cases r)
  case Nil
  assume "closing_bracket (opt_percent r)"
  then show ?thesis using Nil by (simp add: closing_bracket_def opt_percent_def)
next
  case (Cons c t)
  assume cl: "closing_bracket (opt_percent r)"
  show ?thesis
  proof (cases "c = CHR ''%''")
    case True
    then obtain post where "t = CHR '']'' # post"
      using cl Cons by (cases t) (auto simp: closing_bracket_def opt_percent_def)
    then have "r = ''%'' @ '']'' @ post" using Cons True by simp
    then show ?thesis by blast
  next
    case False
    then have "c = CHR '']''"
      using cl Cons by (simp add: closing_bracket_def opt_percent_def)
    then have "r = [] @ '']'' @ t" using Cons by simp
    then show ?thesis by blast
  qed
qed

lemma match_confidence_at_sound:
  assumes "match_confidence_at s = Some ds"
  shows "\<exists>kw ws pct post. s = kw @ ws @ ds @ pct @ '']'' @ post
           \<and> map upper_ascii kw = ''[CONFIDENCE:''
           \<and> (\<forall>c \<in> set ws. is_space c) \<and> ds \<noteq> [] \<and> (\<forall>c \<in> set ds. is_digit c)
           \<and> (pct = [] \<or> pct = ''%'')"
proof -
  from assms obtain r where lit: "match_lit_i ''[CONFIDENCE:'' s = Some r"
    and ds: "ds = takeWhile is_digit (dropWhile is_space r)" and ne: "ds \<noteq> []"
    and cl: "closing_bracket (opt_percent (dropWhile is_digit (dropWhile is_space r)))"
    unfolding match_confidence_at_Some by blast
  from percent_then_bracket [OF cl] obtain pct post where
    r2: "dropWhile is_digit (dropWhile is_space r) = pct @ '']'' @ post"
    and pct: "pct = [] \<or> pct = ''%''" by blast
  from match_lit_i_sound [OF lit] obtain kw where kw: "s = kw @ r"
    "map upper_ascii kw = map upper_ascii ''[CONFIDENCE:''"
    by blast
  have kw2: "map upper_ascii kw = ''[CONFIDENCE:''"
    using kw(2) by (simp only: confidence_keyword)
  have a: "takeWhile is_digit (dropWhile is_space r) @ dropWhile is_digit (dropWhile is_space r)
             = dropWhile is_space r"
    by (rule takeWhile_dropWhile_id)
  have b: "takeWhile is_space r @ dropWhile is_space r = r"
    by (rule takeWhile_dropWhile_id)
  have a': "ds @ pct @ '']'' @ post = dropWhile is_space r"
    using a by (simp only: ds [symmetric] r2)
  have "takeWhile is_space r @ ds @ pct @ '']'' @ post = r"
    by (simp only: a' b)
  then have decomp: "s = kw @ takeWhile is_space r @ ds @ pct @ '']'' @ post"
    by (simp only: kw(1))
  have sp: "\<forall>c \<in> set (takeWhile is_space r). is_space c"
    by (auto dest: set_takeWhileD)
  have dg: "\<forall>c \<in> set ds. is_digit c"
    unfolding ds by (auto dest: set_takeWhileD)
  show ?thesis
    by (intro exI [of _ kw] exI [of _ "takeWhile is_space r"] exI [of _ pct] exI [of _ post] conjI)
       (fact decomp kw2 sp ne dg pct)+
qed

lemma match_confidence_at_tail:
  assumes "map upper_ascii kw = ''[CONFIDENCE:''" and "\<forall>c \<in> set ws. is_space c"
    and "ds \<noteq> []" and "\<forall>c \<in> set ds. is_digit c"
    and "takeWhile is_digit tail = []" and "closing_bracket (opt_percent tail)"
  shows "match_confidence_at (kw @ ws @ ds @ tail) = Some ds"
proof -
  have lit: "match_lit_i ''[CONFIDENCE:'' (kw @ ws @ ds @ tail) = Some (ws @ ds @ tail)"
    by (rule match_lit_i_complete) (simp only: assms(1) confidence_keyword)
  obtain d ds' where d: "ds = d # ds'" using assms(3) by (cases ds) auto
  have "\<not> is_space d" using assms(4) d digit_not_space by simp
  then have r1: "dropWhile is_space (ws @ ds @ tail) = ds @ tail"
    using assms(2) d by (simp add: dropWhile_append)
  have tk: "takeWhile is_digit (ds @ tail) = ds"
    using assms(4,5) by (simp add: takeWhile_append)
  have "dropWhile is_digit tail = tail"
    using assms(5) takeWhile_dropWhile_id [of is_digit tail] by simp
  then have dr: "dropWhile is_digit (ds @ tail) = tail"
    using assms(4) by (simp add: dropWhile_append)
  show ?thesis
    unfolding match_confidence_at_Some
    using lit assms(3,6) by (simp add: r1 tk dr)
qed

lemma match_confidence_at_complete:
  assumes "map upper_ascii kw = ''[CONFIDENCE:''" and "\<forall>c \<in> set ws. is_space c"
    and "ds \<noteq> []" and "\<forall>c \<in> set ds. is_digit c" and "pct = [] \<or> pct = ''%''"
  shows "match_confidence_at (kw @ ws @ ds @ pct @ '']'' @ post) = Some ds"
proof -
  have "takeWhile is_digit (pct @ '']'' @ post) = []"
    using assms(5) by (auto simp: percent_bracket_not_digit)
  moreover have "closing_bracket (opt_percent (pct @ '']'' @ post))"
    using assms(5) by (auto simp: closing_bracket_def opt_percent_def)
  ultimately show ?thesis
    using assms(1-4) by (rule match_confidence_at_tail [rotated 4])
qed

lemma contains_confidence_tag_found:
  assumes "contains_confidence_tag s"
  shows "regex_search match_confidence_at s \<noteq> None"
proof -
  from assms obtain pre kw ws ds pct post where
    s: "s = pre @ kw @ ws @ ds @ pct @ '']'' @ post" and
    c: "map upper_ascii kw = ''[CONFIDENCE:''" "\<forall>c \<in> set ws. is_space c"
       "ds \<noteq> []" "\<forall>c \<in> set ds. is_digit c" "pct = [] \<or> pct = ''%''"
    unfolding contains_confidence_tag_def by (elim exE conjE) (rule that; assumption)
  define suf where "suf = kw @ ws @ ds @ pct @ '']'' @ post"
  have "match_confidence_at suf = Some ds"
    unfolding suf_def using c by (rule match_confidence_at_complete)
  then have "regex_search match_confidence_at (pre @ suf) \<noteq> None"
    by (rule regex_search_complete)
  moreover have "s = pre @ suf" unfolding suf_def by (rule s)
  ultimately show ?thesis by simp
qed

lemma confidence_found_contains:
  assumes "regex_search match_confidence_at s = Some ds"
  shows "contains_confidence_tag s"
proof -
  from regex_search_sound [OF assms] obtain pre suf where
    s: "s = pre @ suf" and m: "match_confidence_at suf = Some ds"
    by (elim exE conjE)
  from match_confidence_at_sound [OF m] obtain kw ws pct post where
    suf: "suf = kw @ ws @ ds @ pct @ '']'' @ post" and
    c: "map upper_ascii kw = ''[CONFIDENCE:''" "\<forall>c \<in> set ws. is_space c"
       "ds \<noteq> []" "\<forall>c \<in> set ds. is_digit c" "pct = [] \<or> pct = ''%''"
    by (elim exE conjE) (rule that; assumption)
  have decomp: "s = pre @ kw @ ws @ ds @ pct @ '']'' @ post"
    unfolding s suf by (rule refl)
  show ?thesis
    unfolding contains_confidence_tag_def
    by (intro exI [of _ pre] exI [of _ kw] exI [of _ ws] exI [of _ ds] exI [of _ pct]
          exI [of _ post] conjI)
       (fact decomp c)+
qed

lemma confidence_search_iff:
  "regex_search match_confidence_at s = None \<longleftrightarrow> \<not> contains_confidence_tag s"
  using contains_confidence_tag_found [of s] confidence_found_contains [of s]
  by (cases "regex_search match_confidence_at s") auto

lemma health_words:
  "map upper_ascii ''HEALTHY'' = ''HEALTHY''"
  "map upper_ascii ''STRESSED'' = ''STRESSED''"
  "map upper_ascii ''CRITICAL'' = ''CRITICAL''"
  by code_simp+

lemma upper_initials:
  "upper_ascii CHR ''H'' = CHR ''H''" "upper_ascii CHR ''S'' = CHR ''S''"
  "upper_ascii CHR ''C'' = CHR ''C''"
  by (simp_all add: upper_ascii_def)

lemma initial_not_space:
  "upper_ascii c = CHR ''H'' \<or> upper_ascii c = CHR ''S'' \<or> upper_ascii c = CHR ''C'' \<Longrightarrow> \<not> is_space c"
  by (auto simp: upper_ascii_def is_space_def split: if_splits)

lemma match_alternatives_sound:
  "match_alternatives alts s = Some v \<Longrightarrow>
   \<exists>w post. w \<in> set alts \<and> s = v @ '']'' @ post \<and> map upper_ascii v = map upper_ascii w"
proof (induction alts)
  case Nil
  then show ?case by simp
next
  case (Cons w alts)
  have later: ?case if "match_alternatives alts s = Some v"
  proof -
    from Cons.IH [OF that] obtain w' post where
      "w' \<in> set alts" "s = v @ '']'' @ post" "map upper_ascii v = map upper_ascii w'"
      by (elim exE conjE)
    then show ?thesis
      by (intro exI [of _ w'] exI [of _ post]) simp
  qed
  show ?case
  proof (cases "match_lit_i w s")
    case None
    then show ?thesis using later Cons.prems by simp
  next
    case (Some r)
    from match_lit_i_sound [OF Some] obtain kw where
      kw: "s = kw @ r" "map upper_ascii kw = map upper_ascii w"
      by (elim exE conjE)
    have len: "length kw = length w" using kw(2) by (rule map_eq_imp_length_eq)
    show ?thesis
    proof (cases r)
      case Nil
      then show ?thesis using later Cons.prems Some by simp
    next
      case (Cons c t)
      show ?thesis
      proof (cases "c = CHR '']''")
        case True
        then have "v = take (length w) s" using Cons.prems Some Cons by simp
        then have v: "v = kw" using kw(1) len by simp
        have "s = v @ '']'' @ t" using kw(1) v Cons True by simp
        then show ?thesis using kw(2) v
          by (intro exI [of _ w] exI [of _ t]) simp
      next
        case False
        then show ?thesis using later Cons.prems Some Cons by simp
      qed
    qed
  qed
qed

lemma match_alternatives_hit:
  assumes "map upper_ascii v = map upper_ascii w"
  shows "match_alternatives (w # alts) (v @ CHR '']'' # post) = Some v"
proof -
  have "match_lit_i w (v @ CHR '']'' # post) = Some (CHR '']'' # post)"
    using assms by (rule match_lit_i_complete)
  moreover have "length v = length w" using assms by (rule map_eq_imp_length_eq)
  ultimately show ?thesis by simp
qed

lemma match_alternatives_complete:
  assumes "map upper_ascii v \<in> {''HEALTHY'', ''STRESSED'', ''CRITICAL''}"
  shows "match_alternatives [''HEALTHY'', ''STRESSED'', ''CRITICAL''] (v @ CHR '']'' # post) = Some v"
proof -
  consider (h) "map upper_ascii v = ''HEALTHY''" | (s) "map upper_ascii v = ''STRESSED''"
    | (c) "map upper_ascii v = ''CRITICAL''"
    using assms by auto
  then show ?thesis
  proof cases
    case h
    then have "map upper_ascii v = map upper_ascii ''HEALTHY''" by (simp only: health_words)
    then show ?thesis by (rule match_alternatives_hit)
  next
    case s
    then obtain c v' where v: "v = c # v'" "upper_ascii c = CHR ''S''" by (cases v) auto
    have miss: "match_lit_i ''HEALTHY'' (v @ CHR '']'' # post) = None"
      by (simp add: v upper_initials)
    have "map upper_ascii v = map upper_ascii ''STRESSED''" using s by (simp only: health_words)
    then have "match_alternatives [''STRESSED'', ''CRITICAL''] (v @ CHR '']'' # post) = Some v"
      by (rule match_alternatives_hit)
    then show ?thesis using miss by simp
  next
    case c
    then obtain d v' where v: "v = d # v'" "upper_ascii d = CHR ''C''" by (cases v) auto
    have miss1: "match_lit_i ''HEALTHY'' (v @ CHR '']'' # post) = None"
      by (simp add: v upper_initials)
    have miss2: "match_lit_i ''STRESSED'' (v @ CHR '']'' # post) = None"
      by (simp add: v upper_initials)
    have "map upper_ascii v = map upper_ascii ''CRITICAL''" using c by (simp only: health_words)
    then have "match_alternatives [''CRITICAL''] (v @ CHR '']'' # post) = Some v"
      by (rule match_alternatives_hit)
    then show ?thesis using miss1 miss2 by simp
  qed
qed

lemma health_value_initial:
  assumes "map upper_ascii v \<in> {''HEALTHY'', ''STRESSED'', ''CRITICAL''}"
  shows "\<exists>c v'. v = c # v' \<and> \<not> is_space c"
proof -
  from assms obtain c v' where v: "v = c # v'"
    and "upper_ascii c = CHR ''H'' \<or> upper_ascii c = CHR ''S'' \<or> upper_ascii c = CHR ''C''"
    by (cases v) auto
  then have "\<not> is_space c" using initial_not_space by blast
  then show ?thesis using v by simp
qed

lemma match_health_at_complete:
  assumes "map upper_ascii kw = ''[HEALTH:''" and "\<forall>c \<in> set ws. is_space c"
    and "map upper_ascii v \<in> {''HEALTHY'', ''STRESSED'', ''CRITICAL''}"
  shows "match_health_at (kw @ ws @ v @ '']'' @ post) = Some v"
proof -
  let ?tail = "v @ '']'' @ post"
  have lit: "match_lit_i ''[HEALTH:'' (kw @ ws @ ?tail) = Some (ws @ ?tail)"
    by (rule match_lit_i_complete) (simp only: assms(1) health_keyword)
  from health_value_initial [OF assms(3)] obtain c v' where v: "v = c # v'" "\<not> is_space c"
    by (elim exE conjE)
  have "dropWhile is_space (ws @ ?tail) = ?tail"
    using assms(2) v by (simp add: dropWhile_append)
  moreover have "match_alternatives [''HEALTHY'', ''STRESSED'', ''CRITICAL''] ?tail = Some v"
    using match_alternatives_complete [OF assms(3), of post] by simp
  ultimately show ?thesis
    unfolding match_health_at_def lit by simp
qed

lemma match_health_at_sound:
  assumes "match_health_at s = Some v"
  shows "\<exists>kw ws post. s = kw @ ws @ v @ '']'' @ post
           \<and> map upper_ascii kw = ''[HEALTH:''
           \<and> (\<forall>c \<in> set ws. is_space c)
           \<and> map upper_ascii v \<in> {''HEALTHY'', ''STRESSED'', ''CRITICAL''}"
proof -
  from assms obtain r where lit: "match_lit_i ''[HEALTH:'' s = Some r"
    and alt: "match_alternatives [''HEALTHY'', ''STRESSED'', ''CRITICAL''] (dropWhile is_space r) = Some v"
    by (auto simp: match_health_at_def split: option.splits)
  from match_lit_i_sound [OF lit] obtain kw where kw: "s = kw @ r"
    "map upper_ascii kw = map upper_ascii ''[HEALTH:''"
    by (elim exE conjE)
  have kw2: "map upper_ascii kw = ''[HEALTH:''"
    using kw(2) by (simp only: health_keyword)
  from match_alternatives_sound [OF alt] obtain w post where
    w: "w \<in> set [''HEALTHY'', ''STRESSED'', ''CRITICAL'']"
    and r1: "dropWhile is_space r = v @ '']'' @ post"
    and up: "map upper_ascii v = map upper_ascii w"
    by (elim exE conjE)
  have val: "map upper_ascii v \<in> {''HEALTHY'', ''STRESSED'', ''CRITICAL''}"
    using w up health_words by auto
  have b: "takeWhile is_space r @ dropWhile is_space r = r"
    by (rule takeWhile_dropWhile_id)
  have "takeWhile is_space r @ v @ '']'' @ post = r"
    using b by (simp only: r1)
  then have decomp: "s = kw @ takeWhile is_space r @ v @ '']'' @ post"
    by (simp only: kw(1))
  have sp: "\<forall>c \<in> set (takeWhile is_space r). is_space c"
    by (auto dest: set_takeWhileD)
  show ?thesis
    by (intro exI [of _ kw] exI [of _ "takeWhile is_space r"] exI [of _ post] conjI)
       (fact decomp kw2 sp val)+
qed

lemma contains_health_tag_found:
  assumes "contains_health_tag s"
  shows "regex_search match_health_at s \<noteq> None"
proof -
  from assms obtain pre kw ws v post where
    s: "s = pre @ kw @ ws @ v @ '']'' @ post" and
    c: "map upper_ascii kw = ''[HEALTH:''" "\<forall>c \<in> set ws. is_space c"
       "map upper_ascii v \<in> {''HEALTHY'', ''STRESSED'', ''CRITICAL''}"
    unfolding contains_health_tag_def by (elim exE conjE) (rule that; assumption)
  define suf where "suf = kw @ ws @ v @ '']'' @ post"
  have "match_health_at suf = Some v"
    unfolding suf_def using c by (rule match_health_at_complete)
  then have "regex_search match_health_at (pre @ suf) \<noteq> None"
    by (rule regex_search_complete)
  moreover have "s = pre @ suf" unfolding suf_def by (rule s)
  ultimately show ?thesis by simp
qed

lemma health_found_contains:
  assumes "regex_search match_health_at s = Some v"
  shows "contains_health_tag s \<and> map upper_ascii v \<in> {''HEALTHY'', ''STRESSED'', ''CRITICAL''}"
proof -
  from regex_search_sound [OF assms] obtain pre suf where
    s: "s = pre @ suf" and m: "match_health_at suf = Some v"
    by (elim exE conjE)
  from match_health_at_sound [OF m] obtain kw ws post where
    suf: "suf = kw @ ws @ v @ '']'' @ post" and
    c: "map upper_ascii kw = ''[HEALTH:''" "\<forall>c \<in> set ws. is_space c"
       "map upper_ascii v \<in> {''HEALTHY'', ''STRESSED'', ''CRITICAL''}"
    by (elim exE conjE) (rule that; assumption)
  have decomp: "s = pre @ kw @ ws @ v @ '']'' @ post"
    unfolding s suf by (rule refl)
  have "contains_health_tag s"
    unfolding contains_health_tag_def
    by (intro exI [of _ pre] exI [of _ kw] exI [of _ ws] exI [of _ v] exI [of _ post] conjI)
       (fact decomp c)+
  then show ?thesis using c(3) by simp
qed

lemma health_search_iff:
  "regex_search match_health_at s = None \<longleftrightarrow> \<not> contains_health_tag s"
  using contains_health_tag_found [of s] health_found_contains [of s]
  by (cases "regex_search match_health_at s") auto

lemma parse_example:
  "parseMetaData ''[HEALTH: CRITICAL][CONFIDENCE: 87%]''
     = \<lparr>confidence_m = Some 87, healthStatus_m = Some ''CRITICAL''\<rparr>"
  by code_simp

lemma parse_health_None: "healthStatus_m (parseMetaData s) = None \<longleftrightarrow> \<not> contains_health_tag s"
  using health_search_iff [of s]
  by (cases "regex_search match_health_at s") (simp_all add: parseMetaData_def Let_def)

lemma parse_confidence_None: "confidence_m (parseMetaData s) = None \<longleftrightarrow> \<not> contains_confidence_tag s"
  using confidence_search_iff [of s]
  by (cases "regex_search match_confidence_at s") (simp_all add: parseMetaData_def Let_def)

lemma toUpperCase_words:
  "regex_search match_health_at s = Some v \<Longrightarrow>
   toUpperCase v \<in> {''HEALTHY'', ''STRESSED'', ''CRITICAL''}"
  using health_found_contains [of s v] by (simp add: toUpperCase_def)

lemma parse_health_Some:
  "healthStatus_m (parseMetaData s) = Some h \<Longrightarrow> h \<in> {''HEALTHY'', ''STRESSED'', ''CRITICAL''}"
  using toUpperCase_words [of s]
  by (auto simp: parseMetaData_def Let_def split: option.splits)

lemma fallback_example:
  "healthStatus (merge_analysis ''Condition critical: root rot'' img) = None"
  "confidence (merge_analysis ''Condition critical: root rot'' img) = None"
  "getHealthColor (merge_analysis ''Condition critical: root rot'' img)
       = ''border-red-500 shadow-[0_0_10px_rgba(239,68,68,0.4)]''"
proof -
  have p: "parseMetaData ''Condition critical: root rot'' = \<lparr>confidence_m = None, healthStatus_m = None\<rparr>"
    by code_simp
  have k: "includes_str (toLowerCase ''Condition critical: root rot'') ''rot''"
    by code_simp
  show "healthStatus (merge_analysis ''Condition critical: root rot'' img) = None"
    by (simp add: merge_analysis_def p)
  show "confidence (merge_analysis ''Condition critical: root rot'' img) = None"
    by (simp add: merge_analysis_def p)
  show "getHealthColor (merge_analysis ''Condition critical: root rot'' img)
       = ''border-red-500 shadow-[0_0_10px_rgba(239,68,68,0.4)]''"
    using k by (simp add: merge_analysis_def p getHealthColor_def Let_def)
qed

text \<open>
  C2. On \<open>[HEALTH: CRITICAL][CONFIDENCE: 87%]\<close> the parser returns health status
  CRITICAL and confidence 87. On every text that contains neither a health tag with one
  of the values HEALTHY, STRESSED, CRITICAL nor a confidence tag it leaves both fields
  unset; more precisely, each field is unset exactly when the text contains no tag of its
  kind, and a health status that is set is one of the three words. The fields stored by
  the merge are the parser's results and nothing else: on a text without tags whose
  words hit the keyword scan, both fields stay unset and only the colour returned by
  \<open>getHealthColor\<close> reflects the keywords.
\<close>

theorem parseMetaData_tags:
  "parseMetaData ''[HEALTH: CRITICAL][CONFIDENCE: 87%]''
     = \<lparr>confidence_m = Some 87, healthStatus_m = Some ''CRITICAL''\<rparr>
   \<and> (\<not> contains_health_tag body \<and> \<not> contains_confidence_tag body \<longrightarrow>
        parseMetaData body = \<lparr>confidence_m = None, healthStatus_m = None\<rparr>)
   \<and> (healthStatus_m (parseMetaData body) = None \<longleftrightarrow> \<not> contains_health_tag body)
   \<and> (confidence_m (parseMetaData body) = None \<longleftrightarrow> \<not> contains_confidence_tag body)
   \<and> (healthStatus_m (parseMetaData body) = Some h \<longrightarrow> h \<in> {''HEALTHY'', ''STRESSED'', ''CRITICAL''})
   \<and> healthStatus (merge_analysis body img) = healthStatus_m (parseMetaData body)
   \<and> confidence (merge_analysis body img) = confidence_m (parseMetaData body)
   \<and> healthStatus (merge_analysis ''Condition critical: root rot'' img) = None
   \<and> confidence (merge_analysis ''Condition critical: root rot'' img) = None
   \<and> getHealthColor (merge_analysis ''Condition critical: root rot'' img)
       = ''border-red-500 shadow-[0_0_10px_rgba(239,68,68,0.4)]''"
proof (intro conjI impI)
  show "parseMetaData ''[HEALTH: CRITICAL][CONFIDENCE: 87%]''
     = \<lparr>confidence_m = Some 87, healthStatus_m = Some ''CRITICAL''\<rparr>"
    by (rule parse_example)
  show "parseMetaData body = \<lparr>confidence_m = None, healthStatus_m = None\<rparr>"
    if "\<not> contains_health_tag body \<and> \<not> contains_confidence_tag body"
  proof -
    have "healthStatus_m (parseMetaData body) = None" "confidence_m (parseMetaData body) = None"
      using that by (simp_all add: parse_health_None parse_confidence_None)
    then show ?thesis by simp
  qed
  show "healthStatus_m (parseMetaData body) = None \<longleftrightarrow> \<not> contains_health_tag body"
    by (rule parse_health_None)
  show "confidence_m (parseMetaData body) = None \<longleftrightarrow> \<not> contains_confidence_tag body"
    by (rule parse_confidence_None)
  show "h \<in> {''HEALTHY'', ''STRESSED'', ''CRITICAL''}" if "healthStatus_m (parseMetaData body) = Some h"
    using that by (rule parse_health_Some)
  show "healthStatus (merge_analysis body img) = healthStatus_m (parseMetaData body)"
    by (simp add: merge_analysis_def Let_def)
  show "confidence (merge_analysis body img) = confidence_m (parseMetaData body)"
    by (simp add: merge_analysis_def Let_def)
  show "healthStatus (merge_analysis ''Condition critical: root rot'' img) = None"
    "confidence (merge_analysis ''Condition critical: root rot'' img) = None"
    "getHealthColor (merge_analysis ''Condition critical: root rot'' img)
       = ''border-red-500 shadow-[0_0_10px_rgba(239,68,68,0.4)]''"
    by (rule fallback_example)+
qed

theorem parseMetaData_tags_witness:
  "\<not> contains_health_tag ''Condition critical: root rot''
   \<and> \<not> contains_confidence_tag ''Condition critical: root rot''
   \<and> parseMetaData ''Condition critical: root rot'' = \<lparr>confidence_m = None, healthStatus_m = None\<rparr>
   \<and> healthStatus_m (parseMetaData ''[health: stressed]'') = Some ''STRESSED''
   \<and> ''STRESSED'' \<in> {''HEALTHY'', ''STRESSED'', ''CRITICAL''}"
proof -
  have p: "parseMetaData ''Condition critical: root rot'' = \<lparr>confidence_m = None, healthStatus_m = None\<rparr>"
    by code_simp
  have q: "healthStatus_m (parseMetaData ''[health: stressed]'') = Some ''STRESSED''"
    by code_simp
  note t = parseMetaData_tags [where body = "''Condition critical: root rot''"]
  have h: "(healthStatus_m (parseMetaData ''Condition critical: root rot'') = None)
             = (\<not> contains_health_tag ''Condition critical: root rot'')"
    by (rule t [THEN conjunct2, THEN conjunct2, THEN conjunct1])
  have c: "(confidence_m (parseMetaData ''Condition critical: root rot'') = None)
             = (\<not> contains_confidence_tag ''Condition critical: root rot'')"
    by (rule t [THEN conjunct2, THEN conjunct2, THEN conjunct2, THEN conjunct1])
  have nh: "\<not> contains_health_tag ''Condition critical: root rot''"
    using h by (simp only: p MetaData.simps simp_thms)
  have nc: "\<not> contains_confidence_tag ''Condition critical: root rot''"
    using c by (simp only: p MetaData.simps simp_thms)
  have "healthStatus_m (parseMetaData ''[health: stressed]'') = Some ''STRESSED'' \<longrightarrow>
        ''STRESSED'' \<in> {''HEALTHY'', ''STRESSED'', ''CRITICAL''}"
    by (rule parseMetaData_tags [where body = "''[health: stressed]''" and h = "''STRESSED''",
          THEN conjunct2, THEN conjunct2, THEN conjunct2, THEN conjunct2, THEN conjunct1])
  then have m: "''STRESSED'' \<in> {''HEALTHY'', ''STRESSED'', ''CRITICAL''}"
    using q by (rule mp)
  show ?thesis
    by (intro conjI) (fact nh nc p q m)+
qed

subsection \<open>Fields that the merge never fills\<close>

text \<open>
  C7. The merge takes confidence and health status from the tags of the analysis text,
  but it returns the growth stage and the advice of the image as they were, whatever
  the text: an image captured and then enriched with an answer that carries all five
  tags of the prompt ends with confidence 90 and health HEALTHY, and with growth stage
  and advice still absent.
\<close>

theorem stage_and_advice_never_parsed:
  "growthStage (merge_analysis body img) = growthStage img
   \<and> advice (merge_analysis body img) = advice img
   \<and> map (\<lambda>img. (confidence img, healthStatus img, growthStage img, advice img))
        (timeline_run
           [Capture (Some ''data:image/jpeg;base64,AA=='') 1700000000000 1700000000000,
            AnalysisDone ''1700000000000''
              (Some ''[HEALTH: HEALTHY][STAGE: flowering][TAGS: bloom][ADVICE: water daily][CONFIDENCE: 90%]'')]
           [])
     = [(Some 90, Some ''HEALTHY'', None, None)]"
proof (intro conjI)
  show "growthStage (merge_analysis body img) = growthStage img"
    by (simp add: merge_analysis_def Let_def)
  show "advice (merge_analysis body img) = advice img"
    by (simp add: merge_analysis_def Let_def)
  have p: "parseMetaData ''[HEALTH: HEALTHY][STAGE: flowering][TAGS: bloom][ADVICE: water daily][CONFIDENCE: 90%]''
             = \<lparr>confidence_m = Some 90, healthStatus_m = Some ''HEALTHY''\<rparr>"
    by code_simp
  show "map (\<lambda>img. (confidence img, healthStatus img, growthStage img, advice img))
        (timeline_run
           [Capture (Some ''data:image/jpeg;base64,AA=='') 1700000000000 1700000000000,
            AnalysisDone ''1700000000000''
              (Some ''[HEALTH: HEALTHY][STAGE: flowering][TAGS: bloom][ADVICE: water daily][CONFIDENCE: 90%]'')]
           [])
     = [(Some 90, Some ''HEALTHY'', None, None)]"
    by (simp add: captureAndProcess_def newImage_def nat_toString.simps digit_char_def
          analysis_done_def enrich_def merge_analysis_def p)
qed

subsection \<open>Identifiers\<close>










subsection \<open>Base64 round trip\<close>

lemma b64_table:
  "list_all (\<lambda>n. b64_index (b64_char n) = Some n \<and> \<not> is_ascii_whitespace (b64_char n)
                  \<and> b64_char n \<noteq> CHR ''='') [0..<64]"
  by code_simp

lemma b64_char_facts:
  assumes "n < 64"
  shows "b64_index (b64_char n) = Some n" and "\<not> is_ascii_whitespace (b64_char n)"
    and "b64_char n \<noteq> CHR ''=''"
proof -
  have "n \<in> set [0..<64]" using assms by simp
  then have "b64_index (b64_char n) = Some n \<and> \<not> is_ascii_whitespace (b64_char n)
             \<and> b64_char n \<noteq> CHR ''=''"
    using b64_table unfolding list_all_iff by blast
  then show "b64_index (b64_char n) = Some n" and "\<not> is_ascii_whitespace (b64_char n)"
    and "b64_char n \<noteq> CHR ''=''" by simp_all
qed

lemma group_bounds:
  fixes a b c :: nat
  assumes "a < 256" and "b < 256" and "c < 256"
  shows "a div 4 < 64" and "(a mod 4) * 16 < 64" and "(a mod 4) * 16 + b div 16 < 64"
    and "(b mod 16) * 4 < 64" and "(b mod 16) * 4 + c div 64 < 64" and "c mod 64 < 64"
proof -
  have a4: "a mod 4 < 4" and b16: "b mod 16 < 16" by simp_all
  have bd: "b div 16 < 16" using assms(2) by (simp add: div_less_iff_less_mult)
  have cd: "c div 64 < 4" using assms(3) by (simp add: div_less_iff_less_mult)
  show "a div 4 < 64" using assms(1) by (simp add: div_less_iff_less_mult)
  show "(a mod 4) * 16 < 64" using a4 by linarith
  show "(a mod 4) * 16 + b div 16 < 64" using a4 bd by linarith
  show "(b mod 16) * 4 < 64" using b16 by linarith
  show "(b mod 16) * 4 + c div 64 < 64" using b16 cd by linarith
  show "c mod 64 < 64" by simp
qed

lemma group_inverse_one:
  fixes a :: nat
  shows "a div 4 * 4 + (a mod 4) * 16 div 16 = a"
  by simp

lemma group_inverse_two:
  fixes a b :: nat
  assumes "b < 256"
  shows "a div 4 * 4 + ((a mod 4) * 16 + b div 16) div 16 = a"
    and "(((a mod 4) * 16 + b div 16) mod 16) * 16 + (b mod 16) * 4 div 4 = b"
proof -
  have bd: "b div 16 < 16" using assms by (simp add: div_less_iff_less_mult)
  show "a div 4 * 4 + ((a mod 4) * 16 + b div 16) div 16 = a" using bd by simp
  show "(((a mod 4) * 16 + b div 16) mod 16) * 16 + (b mod 16) * 4 div 4 = b" using bd by simp
qed

lemma group_inverse_three:
  fixes a b c :: nat
  assumes "b < 256" and "c < 256"
  shows "(((a mod 4) * 16 + b div 16) mod 16) * 16 + ((b mod 16) * 4 + c div 64) div 4 = b"
    and "(((b mod 16) * 4 + c div 64) mod 4) * 64 + c mod 64 = c"
proof -
  have bd: "b div 16 < 16" using assms(1) by (simp add: div_less_iff_less_mult)
  have cd: "c div 64 < 4" using assms(2) by (simp add: div_less_iff_less_mult)
  show "(((a mod 4) * 16 + b div 16) mod 16) * 16 + ((b mod 16) * 4 + c div 64) div 4 = b"
    using bd cd by simp
  show "(((b mod 16) * 4 + c div 64) mod 4) * 64 + c mod 64 = c" using cd by simp
qed

lemma sextets_bound:
  "\<forall>b \<in> set bs. b < 256 \<Longrightarrow> \<forall>x \<in> set (sextets bs). x < 64"
proof (induction bs rule: sextets.induct)
  case 1
  then show ?case by simp
next
  case (2 a)
  then show ?case using group_bounds [of a 0 0] by simp
next
  case (3 a b)
  then show ?case using group_bounds [of a b 0] by simp
next
  case (4 a b c rest)
  then show ?case using group_bounds [of a b c] by simp
qed

lemma octets_sextets:
  "\<forall>b \<in> set bs. b < 256 \<Longrightarrow> octets (sextets bs) = bs"
proof (induction bs rule: sextets.induct)
  case 1
  then show ?case by simp
next
  case (2 a)
  then show ?case using group_inverse_one [of a] by simp
next
  case (3 a b)
  then have b: "b < 256" by simp
  show ?case using group_inverse_two [OF b] by simp
next
  case (4 a b c rest)
  then have b: "b < 256" and c: "c < 256" by simp_all
  show ?case
    using group_inverse_two(1) [OF b] group_inverse_three [OF b c] 4 by simp
qed

lemma sextets_length:
  "length (sextets bs) = 4 * (length bs div 3) + (if length bs mod 3 = 0 then 0 else length bs mod 3 + 1)"
proof (induction bs rule: sextets.induct)
  case (4 a b c rest)
  have "length (a # b # c # rest) = length rest + 3" by simp
  then have "length (a # b # c # rest) div 3 = length rest div 3 + 1"
    "length (a # b # c # rest) mod 3 = length rest mod 3" by simp_all
  then show ?case using 4 by simp
qed simp_all

lemma length_mod_three: "length bs mod 3 = 0 \<or> length bs mod 3 = 1 \<or> length bs mod 3 = 2"
  by arith

lemma padded_length: "(length (sextets bs) + (3 - length bs mod 3) mod 3) mod 4 = 0"
  using length_mod_three [of bs] by (auto simp: sextets_length)

lemma unpadded_length: "length (sextets bs) mod 4 \<noteq> 1"
  using length_mod_three [of bs] by (auto simp: sextets_length)

lemma all_some_b64:
  "\<forall>x \<in> set xs. x < 64 \<Longrightarrow> all_some (map b64_index (map b64_char xs)) = Some xs"
  by (induction xs) (simp_all add: b64_char_facts)

lemma filter_whitespace_b64:
  assumes "\<forall>x \<in> set xs. x < 64"
  shows "filter (\<lambda>c. \<not> is_ascii_whitespace c) (map b64_char xs @ replicate k CHR ''='')
           = map b64_char xs @ replicate k CHR ''=''"
proof -
  have "\<not> is_ascii_whitespace CHR ''=''" by (simp add: is_ascii_whitespace_def)
  then show ?thesis using assms by (auto simp: filter_id_conv b64_char_facts)
qed

lemma strip_padding_b64:
  assumes "\<forall>x \<in> set xs. x < 64" and "k \<le> 2"
  shows "strip_padding (map b64_char xs @ replicate k CHR ''='') = map b64_char xs"
proof -
  let ?body = "map b64_char xs"
  have last_ok: "c \<noteq> CHR ''=''" if "rev ?body = c # r" for c r
  proof -
    have "c \<in> set (rev ?body)" using that by simp
    then obtain x where "x \<in> set xs" "c = b64_char x" by auto
    then show ?thesis using assms(1) b64_char_facts(3) by auto
  qed
  have "k = 0 \<or> k = 1 \<or> k = 2" using assms(2) by arith
  then show ?thesis
  proof (elim disjE)
    assume "k = 0"
    then show ?thesis
      using last_ok by (cases "rev ?body") (simp_all add: strip_padding_def)
  next
    assume k: "k = 1"
    have unfold: "strip_padding (?body @ [CHR ''='']) =
          (case rev ?body of [] \<Rightarrow> rev (rev ?body)
           | c2 # r2 \<Rightarrow> if c2 = CHR ''='' then rev r2 else rev (rev ?body))"
      by (simp add: strip_padding_def)
    have "(case rev ?body of [] \<Rightarrow> rev (rev ?body)
           | c2 # r2 \<Rightarrow> if c2 = CHR ''='' then rev r2 else rev (rev ?body)) = rev (rev ?body)"
    proof (cases "rev ?body")
      case Nil
      then show ?thesis by simp
    next
      case (Cons c r)
      then have "c \<noteq> CHR ''=''" by (rule last_ok)
      then show ?thesis using Cons by simp
    qed
    then have "strip_padding (?body @ [CHR ''='']) = ?body"
      using unfold by simp
    then show ?thesis using k by simp
  next
    assume k: "k = 2"
    have "replicate 2 CHR ''='' = ''==''" by (simp add: numeral_2_eq_2)
    then show ?thesis using k by (simp add: strip_padding_def)
  qed
qed

lemma atob_btoa: "atob (btoa s) = Some s"
proof -
  let ?xs = "sextets (map of_char s)"
  let ?k = "(3 - length s mod 3) mod 3"
  have bytes: "\<forall>b \<in> set (map of_char s :: nat list). b < 256" by simp
  have small: "\<forall>x \<in> set ?xs. x < 64" using bytes by (rule sextets_bound)
  have k: "?k \<le> 2" by arith
  have d1: "filter (\<lambda>c. \<not> is_ascii_whitespace c) (btoa s) = btoa s"
    unfolding btoa_def using small by (rule filter_whitespace_b64)
  have len: "length (btoa s) mod 4 = 0"
    using padded_length [of "map of_char s"] by (simp add: btoa_def)
  have d2: "strip_padding (btoa s) = map b64_char ?xs"
    unfolding btoa_def using small k by (rule strip_padding_b64)
  have len2: "length (map b64_char ?xs) mod 4 \<noteq> 1"
    using unpadded_length [of "map of_char s"] by simp
  have vs: "all_some (map b64_index (map b64_char ?xs)) = Some ?xs"
    using small by (rule all_some_b64)
  have "octets ?xs = map of_char s" using bytes by (rule octets_sextets)
  then have out: "map char_of (octets ?xs) = s" by (simp add: comp_def)
  show ?thesis
    unfolding atob_def d1 Let_def using len len2 by (simp add: d2 vs out del: map_map)
qed

lemma byte_char_byte: "(of_nat (unat (b :: 8 word) mod 256) :: 8 word) = b"
proof -
  have "unat b < 2 ^ LENGTH(8)" by (rule unsigned_less)
  then have "unat b mod 256 = unat b" by simp
  then show ?thesis by simp
qed

text \<open>
  C10. Decoding what \<open>encodeAudio\<close> produced gives back the bytes: for every byte
  array, \<open>decodeAudio\<close> succeeds on \<open>encodeAudio b\<close> and returns \<open>b\<close>.
\<close>

theorem decodeAudio_encodeAudio: "decodeAudio (encodeAudio b) = Some b"
proof -
  have "map (\<lambda>c. of_nat (of_char c)) (map (\<lambda>b. char_of (unat b)) b) = b"
    by (induction b) (simp_all add: byte_char_byte)
  then show ?thesis
    by (simp add: decodeAudio_def encodeAudio_def atob_btoa)
qed

subsection \<open>Timers\<close>

lemma tick_fields [simp]:
  "clock (tick s) = Suc (clock s)"
  "next_id (tick s) = next_id s"
  "intervalRef (tick s) = intervalRef s"
  "deps (tick s) = deps s"
  "timeouts (tick s) = filter (\<lambda>(i, due). due \<noteq> Suc (clock s)) (timeouts s)"
  "intervals (tick s) =
     map (\<lambda>(i, period, due). if due = Suc (clock s) then (i, period, due + period)
                              else (i, period, due)) (intervals s)"
  "captures (tick s) =
     captures s @ replicate (length (filter (\<lambda>(i, due). due = Suc (clock s)) (timeouts s))
                             + length (filter (\<lambda>(i, period, due). due = Suc (clock s)) (intervals s)))
                            (Suc (clock s))"
  by (simp_all add: tick_def Let_def)

lemma count_list_replicate: "count_list (replicate k x) t = (if t = x then k else 0)"
  by (induction k) auto

lemma pending_tick: "pending s \<Longrightarrow> pending (tick s)"
  by (fastforce simp: pending_def list_all_iff split: if_splits)

lemma fired_now:
  assumes "pending s"
  shows "length (filter (\<lambda>(i, period, due). due = Suc (clock s)) (intervals s))
         = length (filter (\<lambda>(i, period, due). due \<le> Suc (clock s) \<and> period dvd (Suc (clock s) - due))
                     (intervals s))"
proof -
  have "filter (\<lambda>(i, period, due). due = Suc (clock s)) (intervals s)
        = filter (\<lambda>(i, period, due). due \<le> Suc (clock s) \<and> period dvd (Suc (clock s) - due))
            (intervals s)"
    using assms by (intro filter_cong) (auto simp: pending_def list_all_iff)
  then show ?thesis by simp
qed

lemma count_tick:
  assumes "pending s"
  shows "count_list (captures (tick s)) t
         = count_list (captures s) t + (if t = Suc (clock s) then due_count s t else 0)"
  using fired_now [OF assms] by (simp add: count_list_replicate due_count_def)

lemma shifted_due:
  fixes due period t :: nat
  assumes "due < t" and "0 < period"
  shows "(due + period \<le> t \<and> period dvd (t - (due + period))) \<longleftrightarrow> (due \<le> t \<and> period dvd (t - due))"
proof
  assume a: "due + period \<le> t \<and> period dvd (t - (due + period))"
  then have "t - due = (t - (due + period)) + period" by simp
  then have "period dvd (t - due)" using a by (metis dvd_add_triv_right_iff)
  then show "due \<le> t \<and> period dvd (t - due)" using assms(1) by simp
next
  assume b: "due \<le> t \<and> period dvd (t - due)"
  have "0 < t - due" using assms(1) by simp
  then have "period \<le> t - due" using b by (simp add: dvd_imp_le)
  then have le: "due + period \<le> t" using assms(1) by linarith
  have "t - due = (t - (due + period)) + period" using le by simp
  then have "period dvd (t - (due + period))" using b by (metis dvd_add_triv_right_iff)
  then show "due + period \<le> t \<and> period dvd (t - (due + period))" using le by simp
qed

lemma due_count_tick:
  assumes "pending s" and "Suc (clock s) < t"
  shows "due_count (tick s) t = due_count s t"
proof -
  have t1: "filter (\<lambda>(i, due). due = t) (filter (\<lambda>(i, due). due \<noteq> Suc (clock s)) (timeouts s))
            = filter (\<lambda>(i, due). due = t) (timeouts s)"
    using assms(2) by (auto intro: filter_cong)
  let ?f = "\<lambda>(i, period, due). if due = Suc (clock s) then (i, period, due + period)
                                else (i, period, due :: nat)"
  let ?Q = "\<lambda>(i :: nat, period, due). due \<le> t \<and> period dvd (t - due)"
  have "length (filter ?Q (map ?f (intervals s))) = length (filter (?Q \<circ> ?f) (intervals s))"
    by (simp add: filter_map)
  also have "filter (?Q \<circ> ?f) (intervals s) = filter ?Q (intervals s)"
  proof (rule filter_cong [OF refl])
    fix x assume x: "x \<in> set (intervals s)"
    obtain i period due where xe: "x = (i, period, due)" by (cases x)
    have p: "0 < period" using assms(1) x xe by (auto simp: pending_def list_all_iff)
    show "(?Q \<circ> ?f) x = ?Q x"
    proof (cases "due = Suc (clock s)")
      case True
      then have "due < t" using assms(2) by simp
      from shifted_due [OF this p] show ?thesis using True xe by simp
    next
      case False
      then show ?thesis using xe by simp
    qed
  qed
  finally have t2: "length (filter ?Q (map ?f (intervals s))) = length (filter ?Q (intervals s))" .
  show ?thesis
    unfolding due_count_def tick_fields t1 using t2 by simp
qed

lemma advance_clock [simp]: "clock (advance n s) = clock s + n"
  by (induction n arbitrary: s) simp_all

lemma advance_unchanged [simp]:
  "next_id (advance n s) = next_id s" "intervalRef (advance n s) = intervalRef s"
  "deps (advance n s) = deps s"
  by (induction n arbitrary: s) simp_all

lemma pending_advance: "pending s \<Longrightarrow> pending (advance n s)"
  by (induction n arbitrary: s) (simp_all add: pending_tick)

lemma count_advance:
  "pending s \<Longrightarrow>
   count_list (captures (advance n s)) t
     = count_list (captures s) t
       + (if clock s < t \<and> t \<le> clock s + n then due_count s t else 0)"
proof (induction n arbitrary: s)
  case 0
  then show ?case by simp
next
  case (Suc n)
  have p: "pending (tick s)" using Suc.prems by (rule pending_tick)
  have "count_list (captures (advance n (tick s))) t
        = count_list (captures (tick s)) t
          + (if Suc (clock s) < t \<and> t \<le> Suc (clock s) + n then due_count (tick s) t else 0)"
    using Suc.IH [OF p] by simp
  also have "\<dots> = count_list (captures s) t
          + (if t = Suc (clock s) then due_count s t else 0)
          + (if Suc (clock s) < t \<and> t \<le> Suc (clock s) + n then due_count s t else 0)"
    using count_tick [OF Suc.prems, of t] due_count_tick [OF Suc.prems, of t] by simp
  also have "\<dots> = count_list (captures s) t
          + (if clock s < t \<and> t \<le> clock s + Suc n then due_count s t else 0)"
    by auto
  finally show ?case by simp
qed

lemma tick_timeouts_pending:
  assumes "pending s"
  shows "timeouts (tick s) = filter (\<lambda>(i, due). Suc (clock s) < due) (timeouts s)"
  unfolding tick_fields using assms
  by (intro filter_cong) (auto simp: pending_def list_all_iff)

lemma filter_later:
  "filter (\<lambda>(i, due). a + n < due) (filter (\<lambda>(i, due). a < due) xs)
   = filter (\<lambda>(i :: nat, due :: nat). a + n < due) xs"
  by (induction xs) auto

lemma advance_timeouts:
  "pending s \<Longrightarrow> timeouts (advance n s) = filter (\<lambda>(i, due). clock s + n < due) (timeouts s)"
proof (induction n arbitrary: s)
  case 0
  then show ?case by (auto simp: pending_def list_all_iff filter_id_conv)
next
  case (Suc n)
  have p: "pending (tick s)" using Suc.prems by (rule pending_tick)
  have a: "timeouts (advance n (tick s))
        = filter (\<lambda>(i, due). clock (tick s) + n < due) (timeouts (tick s))"
    by (rule Suc.IH [OF p])
  have b: "timeouts (tick s) = filter (\<lambda>(i, due). Suc (clock s) < due) (timeouts s)"
    by (rule tick_timeouts_pending [OF Suc.prems])
  have "timeouts (advance (Suc n) s)
        = filter (\<lambda>(i, due). Suc (clock s) + n < due)
            (filter (\<lambda>(i, due). Suc (clock s) < due) (timeouts s))"
    unfolding advance.simps a b by simp
  then show ?case by (simp only: filter_later) simp
qed

lemma advance_interval_ids:
  "map (\<lambda>(i, period, due). (i, period)) (intervals (advance n s))
   = map (\<lambda>(i, period, due). (i, period)) (intervals s)"
proof (induction n arbitrary: s)
  case 0
  then show ?case by simp
next
  case (Suc n)
  have "map (\<lambda>(i, period, due). (i, period)) (intervals (tick s))
        = map (\<lambda>(i, period, due). (i, period)) (intervals s)"
    by (auto simp: comp_def split: prod.splits)
  then show ?case using Suc.IH [of "tick s"] by simp
qed

subsection \<open>Activation, deactivation and interval change\<close>

lemma activate_state:
  "rerender True p e (scheduler_init t0 i0)
   = \<lparr>clock = t0, next_id = (if e then 3 else 2),
      timeouts = (if e then [(1, t0 + 1000)] else []),
      intervals = [(if e then 2 else 1, p, t0 + p)],
      intervalRef = Some (if e then 2 else 1), deps = (True, p), captures = []\<rparr>"
  by (simp add: rerender_def scheduler_init_def scheduler_cleanup_def clearInterval_def
        scheduler_effect_def setTimeout_def setInterval_def Let_def)

lemma pending_activate: "0 < p \<Longrightarrow> pending (rerender True p e (scheduler_init t0 i0))"
  by (simp add: activate_state pending_def)

lemma due_count_activate:
  assumes "0 < p" and "t0 < t"
  shows "due_count (rerender True p e (scheduler_init t0 i0)) t
         = (if e \<and> t = t0 + 1000 then 1 else 0) + (if p dvd (t - t0) then 1 else 0)"
  using shifted_due [OF assms(2,1)] assms(2)
  by (simp add: activate_state due_count_def)

lemma captures_while_active:
  assumes "0 < p"
  shows "count_list (captures (advance n (rerender True p e (scheduler_init t0 i0)))) t
         = (if t0 < t \<and> t \<le> t0 + n
            then (if e \<and> t = t0 + 1000 then 1 else 0) + (if p dvd (t - t0) then 1 else 0)
            else 0)"
proof -
  let ?s1 = "rerender True p e (scheduler_init t0 i0)"
  have "count_list (captures (advance n ?s1)) t
        = count_list (captures ?s1) t
          + (if clock ?s1 < t \<and> t \<le> clock ?s1 + n then due_count ?s1 t else 0)"
    using pending_activate [OF assms] by (rule count_advance)
  moreover have "clock ?s1 = t0" "captures ?s1 = []" by (simp_all add: activate_state)
  ultimately show ?thesis using due_count_activate [OF assms, of t0 t e i0] by simp
qed

lemma single_interval:
  "map (\<lambda>(i, period, due). (i, period)) xs = [(nid, p)] \<Longrightarrow> \<exists>due. xs = [(nid, p, due)]"
  by (cases xs) auto

lemma running_state:
  assumes "0 < p"
  shows "\<exists>due. advance d (rerender True p e (scheduler_init t0 i0))
           = \<lparr>clock = t0 + d, next_id = (if e then 3 else 2),
              timeouts = (if e \<and> d < 1000 then [(1, t0 + 1000)] else []),
              intervals = [(if e then 2 else 1, p, due)],
              intervalRef = Some (if e then 2 else 1), deps = (True, p),
              captures = captures (advance d (rerender True p e (scheduler_init t0 i0)))\<rparr>
           \<and> t0 + d < due"
proof -
  let ?s1 = "rerender True p e (scheduler_init t0 i0)"
  have p1: "pending ?s1" using assms(1) by (rule pending_activate)
  have "map (\<lambda>(i, period, due). (i, period)) (intervals (advance d ?s1)) = [(if e then 2 else 1, p)]"
    by (simp add: advance_interval_ids activate_state)
  from single_interval [OF this] obtain due where
    iv: "intervals (advance d ?s1) = [(if e then 2 else 1, p, due)]" by (elim exE)
  have "pending (advance d ?s1)" using p1 by (rule pending_advance)
  then have due: "t0 + d < due" using iv by (simp add: pending_def activate_state)
  have tm: "timeouts (advance d ?s1) = (if e \<and> d < 1000 then [(1, t0 + 1000)] else [])"
    using advance_timeouts [OF p1, of d] by (simp add: activate_state)
  have "advance d ?s1
        = \<lparr>clock = clock (advance d ?s1), next_id = next_id (advance d ?s1),
           timeouts = timeouts (advance d ?s1), intervals = intervals (advance d ?s1),
           intervalRef = intervalRef (advance d ?s1), deps = deps (advance d ?s1),
           captures = captures (advance d ?s1)\<rparr>"
    by simp
  also have "\<dots> = \<lparr>clock = t0 + d, next_id = (if e then 3 else 2),
              timeouts = (if e \<and> d < 1000 then [(1, t0 + 1000)] else []),
              intervals = [(if e then 2 else 1, p, due)],
              intervalRef = Some (if e then 2 else 1), deps = (True, p),
              captures = captures (advance d ?s1)\<rparr>"
    unfolding tm iv by (simp add: activate_state)
  finally show ?thesis using due by (intro exI [of _ due] conjI)
qed

lemma deactivate_state:
  assumes "0 < p"
  shows "rerender False p e' (advance d (rerender True p e (scheduler_init t0 i0)))
         = \<lparr>clock = t0 + d, next_id = (if e then 3 else 2),
            timeouts = (if e \<and> d < 1000 then [(1, t0 + 1000)] else []),
            intervals = [],
            intervalRef = Some (if e then 2 else 1), deps = (False, p),
            captures = captures (advance d (rerender True p e (scheduler_init t0 i0)))\<rparr>"
proof -
  from running_state [OF assms, of d e t0 i0] obtain due where
    st: "advance d (rerender True p e (scheduler_init t0 i0))
           = \<lparr>clock = t0 + d, next_id = (if e then 3 else 2),
              timeouts = (if e \<and> d < 1000 then [(1, t0 + 1000)] else []),
              intervals = [(if e then 2 else 1, p, due)],
              intervalRef = Some (if e then 2 else 1), deps = (True, p),
              captures = captures (advance d (rerender True p e (scheduler_init t0 i0)))\<rparr>"
    by (elim exE conjE)
  show ?thesis
    by (subst st, subst (2) st)
       (simp add: rerender_def scheduler_cleanup_def clearInterval_def scheduler_effect_def)
qed

lemma captures_after_deactivation:
  assumes "0 < p"
  shows "count_list (captures (advance n (rerender False p e'
            (advance d (rerender True p e (scheduler_init t0 i0)))))) t
         = (if t0 < t \<and> t \<le> t0 + d
            then (if e \<and> t = t0 + 1000 then 1 else 0) + (if p dvd (t - t0) then 1 else 0)
            else if t0 + d < t \<and> t \<le> t0 + d + n \<and> e \<and> t = t0 + 1000 then 1 else 0)"
proof -
  let ?sd = "advance d (rerender True p e (scheduler_init t0 i0))"
  let ?s2 = "rerender False p e' ?sd"
  note st = deactivate_state [OF assms, of e' d e t0 i0]
  have pend: "pending ?s2" by (simp add: st pending_def)
  have dc: "due_count ?s2 t = (if e \<and> d < 1000 \<and> t = t0 + 1000 then 1 else 0)"
    by (simp add: st due_count_def)
  have "count_list (captures (advance n ?s2)) t
        = count_list (captures ?s2) t
          + (if clock ?s2 < t \<and> t \<le> clock ?s2 + n then due_count ?s2 t else 0)"
    using pend by (rule count_advance)
  moreover have "clock ?s2 = t0 + d" "captures ?s2 = captures ?sd" by (simp_all add: st)
  ultimately have "count_list (captures (advance n ?s2)) t
        = count_list (captures ?sd) t
          + (if t0 + d < t \<and> t \<le> t0 + d + n then (if e \<and> d < 1000 \<and> t = t0 + 1000 then 1 else 0) else 0)"
    using dc by simp
  then show ?thesis
    using captures_while_active [OF assms, of d e t0 i0 t] by auto
qed

lemma change_state:
  assumes "0 < p" and "p' \<noteq> p"
  shows "rerender True p' e' (advance d (rerender True p e (scheduler_init t0 i0)))
         = \<lparr>clock = t0 + d,
            next_id = (if e then 3 else 2) + (if e' then 2 else 1),
            timeouts = (if e \<and> d < 1000 then [(1, t0 + 1000)] else [])
                       @ (if e' then [(if e then 3 else 2, t0 + d + 1000)] else []),
            intervals = [((if e then 3 else 2) + (if e' then 1 else 0), p', t0 + d + p')],
            intervalRef = Some ((if e then 3 else 2) + (if e' then 1 else 0)), deps = (True, p'),
            captures = captures (advance d (rerender True p e (scheduler_init t0 i0)))\<rparr>
         \<and> intervals (scheduler_cleanup (advance d (rerender True p e (scheduler_init t0 i0)))) = []"
proof -
  from running_state [OF assms(1), of d e t0 i0] obtain due where
    st: "advance d (rerender True p e (scheduler_init t0 i0))
           = \<lparr>clock = t0 + d, next_id = (if e then 3 else 2),
              timeouts = (if e \<and> d < 1000 then [(1, t0 + 1000)] else []),
              intervals = [(if e then 2 else 1, p, due)],
              intervalRef = Some (if e then 2 else 1), deps = (True, p),
              captures = captures (advance d (rerender True p e (scheduler_init t0 i0)))\<rparr>"
    by (elim exE conjE)
  show ?thesis
    using assms(2)
    by (subst st, subst (2) st, subst (3) st)
       (simp add: rerender_def scheduler_cleanup_def clearInterval_def scheduler_effect_def
          setTimeout_def setInterval_def Let_def)
qed

lemma captures_after_change:
  assumes "0 < p" and "0 < p'" and "p' \<noteq> p"
  shows "count_list (captures (advance n (rerender True p' e'
            (advance d (rerender True p e (scheduler_init t0 i0)))))) t
         = count_list (captures (advance d (rerender True p e (scheduler_init t0 i0)))) t
           + (if t0 + d < t \<and> t \<le> t0 + d + n
              then (if e \<and> t = t0 + 1000 then 1 else 0)
                   + (if e' \<and> t = t0 + d + 1000 then 1 else 0)
                   + (if p' dvd (t - (t0 + d)) then 1 else 0)
              else 0)"
proof -
  let ?sd = "advance d (rerender True p e (scheduler_init t0 i0))"
  let ?s2 = "rerender True p' e' ?sd"
  note st = change_state [OF assms(1,3), of e' d e t0 i0, THEN conjunct1]
  have pend: "pending ?s2" using assms(2) by (simp add: st pending_def)
  have dc: "t0 + d < t \<Longrightarrow> due_count ?s2 t
              = (if e \<and> t = t0 + 1000 then 1 else 0)
                + (if e' \<and> t = t0 + d + 1000 then 1 else 0)
                + (if p' dvd (t - (t0 + d)) then 1 else 0)"
    using shifted_due [of "t0 + d" t p'] assms(2)
    by (auto simp add: st due_count_def)
  have "count_list (captures (advance n ?s2)) t
        = count_list (captures ?s2) t
          + (if clock ?s2 < t \<and> t \<le> clock ?s2 + n then due_count ?s2 t else 0)"
    using pend by (rule count_advance)
  moreover have "clock ?s2 = t0 + d" "captures ?s2 = captures ?sd" by (simp_all add: st)
  ultimately show ?thesis using dc by simp
qed

lemma running_timeouts:
  assumes "0 < p"
  shows "timeouts (advance d (rerender True p e (scheduler_init t0 i0)))
         = (if e \<and> d < 1000 then [(1, t0 + 1000)] else [])"
proof -
  from running_state [OF assms, of d e t0 i0] obtain due where
    st: "advance d (rerender True p e (scheduler_init t0 i0))
           = \<lparr>clock = t0 + d, next_id = (if e then 3 else 2),
              timeouts = (if e \<and> d < 1000 then [(1, t0 + 1000)] else []),
              intervals = [(if e then 2 else 1, p, due)],
              intervalRef = Some (if e then 2 else 1), deps = (True, p),
              captures = captures (advance d (rerender True p e (scheduler_init t0 i0)))\<rparr>"
    by (elim exE conjE)
  show ?thesis by (subst st) simp
qed

text \<open>
  Let the scheduler be activated at time \<open>t0\<close> with a positive interval \<open>p\<close>
  (milliseconds). With an empty history, the timers call the capture exactly once at
  \<open>t0 + 1000\<close> and exactly once at every \<open>t0 + k * p\<close>, and at no other time, for as long
  as it stays active. With a non-empty history only the calls at \<open>t0 + k * p\<close> happen.
  After a deactivation at \<open>t0 + d\<close> no periodic call happens any more; the one call at
  \<open>t0 + 1000\<close> still happens when the deactivation came before it.
\<close>

theorem capture_cadence:
  assumes "0 < p"
  shows "count_list (captures (advance n (rerender True p True (scheduler_init t0 i0)))) t
           = (if t0 < t \<and> t \<le> t0 + n
              then (if t = t0 + 1000 then 1 else 0) + (if p dvd (t - t0) then 1 else 0)
              else 0)
         \<and> count_list (captures (advance n (rerender True p False (scheduler_init t0 i0)))) t
           = (if t0 < t \<and> t \<le> t0 + n \<and> p dvd (t - t0) then 1 else 0)
         \<and> count_list (captures (advance n (rerender False p e'
              (advance d (rerender True p e (scheduler_init t0 i0)))))) t
           = (if t0 < t \<and> t \<le> t0 + d
              then (if e \<and> t = t0 + 1000 then 1 else 0) + (if p dvd (t - t0) then 1 else 0)
              else if t0 + d < t \<and> t \<le> t0 + d + n \<and> e \<and> t = t0 + 1000 then 1 else 0)"
  using captures_while_active [OF assms, of n True t0 i0 t]
    captures_while_active [OF assms, of n False t0 i0 t]
    captures_after_deactivation [OF assms, of n e' d e t0 i0 t]
  by simp

theorem capture_cadence_witness:
  "(0::nat) < 5400000
   \<and> count_list (captures (advance 10800000 (rerender True 5400000 True (scheduler_init 0 5400000)))) 1000 = 1
   \<and> count_list (captures (advance 10800000 (rerender True 5400000 True (scheduler_init 0 5400000)))) 5400000 = 1
   \<and> count_list (captures (advance 10800000 (rerender True 5400000 True (scheduler_init 0 5400000)))) 5400001 = 0
   \<and> count_list (captures (advance 10800000 (rerender True 5400000 False (scheduler_init 0 5400000)))) 1000 = 0
   \<and> count_list (captures (advance 10800000 (rerender False 5400000 False
        (advance 6000000 (rerender True 5400000 True (scheduler_init 0 5400000)))))) 10800000 = 0"
proof -
  have p: "(0::nat) < 5400000" by simp
  show ?thesis
    using capture_cadence [OF p, of 10800000 0 5400000 1000]
      capture_cadence [OF p, of 10800000 0 5400000 5400000]
      capture_cadence [OF p, of 10800000 0 5400000 5400001]
      capture_cadence [OF p, of 10800000 0 5400000 10800000 False 6000000 True]
    by simp
qed

text \<open>
  C4. Activation with an empty history gives one capture after the fixed delay and then
  one per interval, and the cleanup of the effect ends the periodic captures. The
  one-shot timer of the first capture, however, is registered without keeping its
  identifier and is cleared nowhere, and the capture does not look at \<open>active\<close>: when the
  scheduler is started at 0 with an empty history and stopped at 500 ms, nothing has
  been captured by then, the scheduler is inactive and holds no periodic timer, and yet
  the capture is called at 1000 ms.
\<close>

theorem capture_after_deactivation:
  "count_list (captures (advance 500 (rerender True 5400000 True (scheduler_init 0 5400000)))) 1000 = 0
   \<and> deps (rerender False 5400000 True
        (advance 500 (rerender True 5400000 True (scheduler_init 0 5400000)))) = (False, 5400000)
   \<and> intervals (rerender False 5400000 True
        (advance 500 (rerender True 5400000 True (scheduler_init 0 5400000)))) = []
   \<and> count_list (captures (advance 1000 (rerender False 5400000 True
        (advance 500 (rerender True 5400000 True (scheduler_init 0 5400000)))))) 1000 = 1"
proof -
  have p: "(0::nat) < 5400000" by simp
  have a: "count_list (captures (advance 500 (rerender True 5400000 True (scheduler_init 0 5400000)))) 1000 = 0"
    using captures_while_active [OF p, of 500 True 0 5400000 1000] by simp
  have b: "deps (rerender False 5400000 True
        (advance 500 (rerender True 5400000 True (scheduler_init 0 5400000)))) = (False, 5400000)"
    by (subst deactivate_state [OF p]) simp
  have c: "intervals (rerender False 5400000 True
        (advance 500 (rerender True 5400000 True (scheduler_init 0 5400000)))) = []"
    by (subst deactivate_state [OF p]) simp
  have d: "count_list (captures (advance 1000 (rerender False 5400000 True
        (advance 500 (rerender True 5400000 True (scheduler_init 0 5400000)))))) 1000 = 1"
    using captures_after_deactivation [OF p, of 1000 True 500 True 0 5400000 1000] by simp
  show ?thesis by (intro conjI) (fact a b c d)+
qed

text \<open>
  The scheduler is activated with an empty history and the default interval; half a
  second later, the history still being empty, the interval is set to 0.1 hours. Then
  the timers call the capture at 1000 and again at 1500, which is not on the new
  cadence.
\<close>

theorem interval_change_extra_capture:
  "count_list (captures (advance 2000 (rerender True 360000 True
      (advance 500 (rerender True 5400000 True (scheduler_init 0 5400000)))))) 1000 = 1
   \<and> count_list (captures (advance 2000 (rerender True 360000 True
      (advance 500 (rerender True 5400000 True (scheduler_init 0 5400000)))))) 1500 = 1
   \<and> \<not> (360000::nat) dvd (1500 - 500)"
proof -
  have a: "(0::nat) < 5400000" and b: "(0::nat) < 360000" and c: "(360000::nat) \<noteq> 5400000"
    by simp_all
  show ?thesis
    using captures_after_change [OF a b c, of 2000 True 500 True 0 5400000 1000]
      captures_after_change [OF a b c, of 2000 True 500 True 0 5400000 1500]
      captures_while_active [OF a, of 500 True 0 5400000 1000]
      captures_while_active [OF a, of 500 True 0 5400000 1500]
    by simp
qed

text \<open>
  C5. Let the scheduler have been activated at \<open>t0\<close> with interval \<open>p\<close>, and
  let the interval change to \<open>p'\<close> at \<open>t0 + d\<close> while the history is not empty. The
  cleanup removes the old periodic timer before the body registers the new one, so that
  afterwards exactly one periodic timer exists, with period \<open>p'\<close> and first due at
  \<open>t0 + d + p'\<close>. The change itself registers no one-shot timer and calls no capture:
  from then on the timers call the capture exactly once at every \<open>t0 + d + k * p'\<close>, and
  besides only at \<open>t0 + 1000\<close> when the initial capture of the activation was still to
  come.
\<close>

theorem interval_change_with_history:
  assumes "0 < p" and "0 < p'" and "p' \<noteq> p"
  shows "intervals (scheduler_cleanup (advance d (rerender True p e (scheduler_init t0 i0)))) = []
         \<and> map (\<lambda>(i, period, due). (period, due))
             (intervals (rerender True p' False (advance d (rerender True p e (scheduler_init t0 i0)))))
           = [(p', t0 + d + p')]
         \<and> timeouts (rerender True p' False (advance d (rerender True p e (scheduler_init t0 i0))))
           = timeouts (advance d (rerender True p e (scheduler_init t0 i0)))
         \<and> captures (rerender True p' False (advance d (rerender True p e (scheduler_init t0 i0))))
           = captures (advance d (rerender True p e (scheduler_init t0 i0)))
         \<and> count_list (captures (advance n (rerender True p' False
              (advance d (rerender True p e (scheduler_init t0 i0)))))) t
           = count_list (captures (advance d (rerender True p e (scheduler_init t0 i0)))) t
             + (if t0 + d < t \<and> t \<le> t0 + d + n
                then (if e \<and> t = t0 + 1000 then 1 else 0) + (if p' dvd (t - (t0 + d)) then 1 else 0)
                else 0)"
proof -
  note st = change_state [OF assms(1,3), of False d e t0 i0]
  have "intervals (scheduler_cleanup (advance d (rerender True p e (scheduler_init t0 i0)))) = []"
    using st by (rule conjunct2)
  moreover have "map (\<lambda>(i, period, due). (period, due))
             (intervals (rerender True p' False (advance d (rerender True p e (scheduler_init t0 i0)))))
           = [(p', t0 + d + p')]"
    by (subst st [THEN conjunct1]) simp
  moreover have "timeouts (rerender True p' False (advance d (rerender True p e (scheduler_init t0 i0))))
           = timeouts (advance d (rerender True p e (scheduler_init t0 i0)))"
    by (subst st [THEN conjunct1]) (simp add: running_timeouts [OF assms(1)])
  moreover have "captures (rerender True p' False (advance d (rerender True p e (scheduler_init t0 i0))))
           = captures (advance d (rerender True p e (scheduler_init t0 i0)))"
    by (subst st [THEN conjunct1]) simp
  moreover note captures_after_change [OF assms, of n False d e t0 i0 t]
  ultimately show ?thesis by simp
qed

theorem interval_change_with_history_witness:
  "(0::nat) < 5400000 \<and> (0::nat) < 360000 \<and> (360000::nat) \<noteq> 5400000
   \<and> intervals (scheduler_cleanup (advance 500 (rerender True 5400000 True (scheduler_init 0 5400000)))) = []
   \<and> map (\<lambda>(i, period, due). (period, due))
       (intervals (rerender True 360000 False (advance 500 (rerender True 5400000 True (scheduler_init 0 5400000)))))
     = [(360000, 360500)]
   \<and> count_list (captures (advance 2000 (rerender True 360000 False
        (advance 500 (rerender True 5400000 True (scheduler_init 0 5400000)))))) 1500
     = count_list (captures (advance 500 (rerender True 5400000 True (scheduler_init 0 5400000)))) 1500"
proof -
  have a: "(0::nat) < 5400000" and b: "(0::nat) < 360000" and c: "(360000::nat) \<noteq> 5400000"
    by simp_all
  show ?thesis
    using interval_change_with_history [OF a b c, of 500 True 0 5400000 2000 1500]
    by simp
qed

subsection \<open>Teardown of the live session\<close>

text \<open>
  C9. When it runs, the cleanup stops the video interval, stops the tracks of the stream
  held in \<open>streamRef\<close> and closes the audio contexts held in the refs. But a frame
  whose encoding was started before the cleanup is still sent to the session after it;
  and when the cleanup runs while \<open>getUserMedia\<close> is pending, the stream that arrives
  later is stored and never stopped, and both audio contexts are created afterwards and
  never closed.
\<close>

theorem teardown_races:
  "videoInterval (teardown s) = False
   \<and> map_option live (streamRef (teardown s)) \<noteq> Some True
   \<and> inputAudioContextRef (teardown s) \<noteq> Some True
   \<and> outputAudioContextRef (teardown s) \<noteq> Some True
   \<and> sends (bridge_run [StreamReady 1, SessionReady, VideoTick True, Teardown] bridge_mount) = []
   \<and> sends (bridge_run [StreamReady 1, SessionReady, VideoTick True, Teardown, FrameEncoded] bridge_mount)
       = [ImageFrame]
   \<and> stop_calls (bridge_run [StreamReady 1, SessionReady, AudioProcess, VideoTick True, FrameEncoded,
                              Teardown, AudioProcess, VideoTick True] bridge_mount) = [1]
   \<and> sends (bridge_run [StreamReady 1, SessionReady, AudioProcess, VideoTick True, FrameEncoded,
                         Teardown, AudioProcess, VideoTick True, FrameEncoded] bridge_mount)
       = [AudioChunk, ImageFrame]
   \<and> streamRef (bridge_run [Teardown, StreamReady 1, SessionReady] bridge_mount)
       = Some \<lparr>handle = 1, live = True\<rparr>
   \<and> stop_calls (bridge_run [Teardown, StreamReady 1, SessionReady] bridge_mount) = []
   \<and> inputAudioContextRef (bridge_run [Teardown, StreamReady 1, SessionReady] bridge_mount) = Some True
   \<and> outputAudioContextRef (bridge_run [Teardown, StreamReady 1, SessionReady] bridge_mount) = Some True"
  by (simp add: teardown_def bridge_mount_def Let_def split: option.splits)

end
